theory Spec2Isabelle
  imports Complex_Main "HOL-Library.Multiset"
begin

section \<open>Parallel primitives (tit/core/par/algorithms.hpp)\<close>

text \<open>
  The parallel loops of the solver hand their bodies to TBB. What a claim can say about
  them is the shape of the work they fork: which calls are issued, with which arguments,
  and which of them are ordered one after the other. That shape is a tree: a single
  invocation of the body, a sequential loop (\<open>std::ranges::for_each\<close>), or a parallel
  loop (\<open>tbb::parallel_for\<close>) whose children may overlap in time.
\<close>

datatype 'a sched = Call 'a | Seq "'a sched list" | Par "'a sched list"

text \<open>All invocations of the body, read left to right.\<close>

fun calls :: "'a sched \<Rightarrow> 'a list" where
  "calls (Call x) = [x]"
| "calls (Seq ss) = concat (map calls ss)"
| "calls (Par ss) = concat (map calls ss)"

text \<open>
  \<open>DeterministicForEachRange::operator()\<close>: \<open>cnt\<close> (the source's \<open>count\<close>) is \<open>num_threads()\<close>, the quotient and
  the remainder are those of the size of the range by \<open>cnt\<close>, and the task with index
  \<open>thread_index\<close> receives the subrange from \<open>first\<close> to \<open>last\<close>. All the quantities are
  \<open>size_t\<close>; none exceeds the size of the range, so nothing wraps.
\<close>

definition chunk_first :: "nat \<Rightarrow> nat \<Rightarrow> nat \<Rightarrow> nat" where
  "chunk_first n cnt thread_index =
     thread_index * (n div cnt) + min thread_index (n mod cnt)"

definition chunk_last :: "nat \<Rightarrow> nat \<Rightarrow> nat \<Rightarrow> nat" where
  "chunk_last n cnt thread_index =
     (thread_index + 1) * (n div cnt) + min (thread_index + 1) (n mod cnt)"

definition subrange :: "'a list \<Rightarrow> nat \<Rightarrow> nat \<Rightarrow> 'a list" where
  "subrange xs first lst = take (lst - first) (drop first xs)"

text \<open>
  Parallelizable ranges (tit/core/par/range.hpp). A blockable range is a sized
  random-access range, a list here. A parallelizable range is a blockable range below a
  stack of \<open>filter\<close>, \<open>transform\<close>, \<open>elements\<close> and \<open>join\<close> views. The views change the type
  of the elements, so a range is kept as its blockable base together with the function
  that the stack of views applies to a subrange of the base: what \<open>Unview\<close> computes, one
  view at a time, when it wraps the body into
  \<open>func(std::views::filter(subrange, pred), body_args...)\<close> and recurs on \<open>base()\<close>.
  A \<open>transform\<close> or \<open>elements\<close> view of a blockable range is blockable itself and is
  chunked directly in the source; its subranges are the views of the subranges of its base
  (lemma \<open>subrange_map\<close>), so it is kept in the same way.
\<close>

record ('b, 'a) par_range =
  base :: "'b list"
  views :: "'b list \<Rightarrow> 'a list"

definition all_view :: "'a list \<Rightarrow> ('a, 'a) par_range" where
  "all_view range' = \<lparr>base = range', views = (\<lambda>subrange. subrange)\<rparr>"

definition filter_view :: "('a \<Rightarrow> bool) \<Rightarrow> ('b, 'a) par_range \<Rightarrow> ('b, 'a) par_range" where
  "filter_view pred range' =
     \<lparr>base = base range', views = (\<lambda>subrange. filter pred (views range' subrange))\<rparr>"

definition transform_view :: "('a \<Rightarrow> 'c) \<Rightarrow> ('b, 'a) par_range \<Rightarrow> ('b, 'c) par_range" where
  "transform_view proj range' =
     \<lparr>base = base range', views = (\<lambda>subrange. map proj (views range' subrange))\<rparr>"

text \<open>\<open>std::views::elements<N>\<close>, with \<open>sel\<close> the projection on the component \<open>N\<close>.\<close>

definition elements_view :: "('a \<Rightarrow> 'c) \<Rightarrow> ('b, 'a) par_range \<Rightarrow> ('b, 'c) par_range" where
  "elements_view sel range' =
     \<lparr>base = base range', views = (\<lambda>subrange. map sel (views range' subrange))\<rparr>"

definition join_view :: "('b, 'a list) par_range \<Rightarrow> ('b, 'a) par_range" where
  "join_view range' =
     \<lparr>base = base range', views = (\<lambda>subrange. concat (views range' subrange))\<rparr>"

text \<open>The elements of a range, in the order in which a loop over it meets them.\<close>

definition range_elems :: "('b, 'a) par_range \<Rightarrow> 'a list" where
  "range_elems range' = views range' (base range')"

text \<open>
  \<open>impl::unview\<close>: the blockable base, and the body that applies the views to the subrange
  it is given before it calls \<open>func\<close>; the other arguments of the body (here the thread
  index) are passed on.
\<close>

definition unview ::
  "('b, 'a) par_range \<Rightarrow> ('a list \<Rightarrow> nat \<Rightarrow> 'c) \<Rightarrow> 'b list \<times> ('b list \<Rightarrow> nat \<Rightarrow> 'c)" where
  "unview range' func =
     (base range', \<lambda>subrange thread_index. func (views range' subrange) thread_index)"

text \<open>The overload of \<open>DeterministicForEachRange::operator()\<close> for blockable ranges.\<close>

definition deterministic_for_each_range ::
  "nat \<Rightarrow> 'a list \<Rightarrow> ('a list \<Rightarrow> nat \<Rightarrow> 'b sched) \<Rightarrow> 'b sched" where
  "deterministic_for_each_range cnt range' func =
     Par (map (\<lambda>thread_index.
            func (subrange range' (chunk_first (length range') cnt thread_index)
                                 (chunk_last (length range') cnt thread_index))
                 thread_index)
          [0..<cnt])"

text \<open>
  The overload that \<open>DeterministicForEachRange\<close> inherits from \<open>UnviewInvoker<0, 1>\<close>, for
  the parallelizable ranges that are not blockable: the range and the body are replaced by
  their unviewed versions and the loop is called again, on the base. For a blockable range
  (\<open>all_view\<close>) the unviewed versions are the range and the body themselves, so this also
  covers the direct call.
\<close>

definition deterministic_for_each_range_unview ::
  "nat \<Rightarrow> ('b, 'a) par_range \<Rightarrow> ('a list \<Rightarrow> nat \<Rightarrow> 'c sched) \<Rightarrow> 'c sched" where
  "deterministic_for_each_range_unview cnt range' func =
     (case unview range' func of
        (range'', func') \<Rightarrow> deterministic_for_each_range cnt range'' func')"

text \<open>
  \<open>DeterministicForEach::operator()\<close>, for every parallelizable range: the body given to
  the range version walks its subrange in order and calls \<open>func(x, thread_index)\<close>.
\<close>

definition deterministic_for_each :: "nat \<Rightarrow> ('b, 'a) par_range \<Rightarrow> ('a \<times> nat) sched" where
  "deterministic_for_each cnt range' =
     deterministic_for_each_range_unview cnt range'
       (\<lambda>sub thread_index. Seq (map (\<lambda>x. Call (x, thread_index)) sub))"

text \<open>
  The chunk of the base that the task \<open>thread_index\<close> receives, and what the task walks:
  the views of that chunk.
\<close>

definition base_chunk :: "nat \<Rightarrow> ('b, 'a) par_range \<Rightarrow> nat \<Rightarrow> 'b list" where
  "base_chunk cnt range' thread_index =
     subrange (base range') (chunk_first (length (base range')) cnt thread_index)
                            (chunk_last (length (base range')) cnt thread_index)"

definition range_chunk :: "nat \<Rightarrow> ('b, 'a) par_range \<Rightarrow> nat \<Rightarrow> 'a list" where
  "range_chunk cnt range' thread_index = views range' (base_chunk cnt range' thread_index)"

text \<open>
  A stack of views commutes with cutting the base into pieces: the views of two adjacent
  pieces, one after the other, are the views of the two pieces together.
\<close>

definition piecewise :: "('b list \<Rightarrow> 'a list) \<Rightarrow> bool" where
  "piecewise v \<longleftrightarrow> (\<forall>xs ys. v (xs @ ys) = v xs @ v ys)"

text \<open>The thread index of every position, as a function of the size and the thread cnt only.\<close>

definition thread_ids :: "nat \<Rightarrow> nat \<Rightarrow> nat list" where
  "thread_ids n cnt =
     concat (map (\<lambda>t. replicate (chunk_last n cnt t - chunk_first n cnt t) t) [0..<cnt])"


text \<open>
  \<open>ForEach::operator()\<close>: \<open>par::for_each\<close> gives the blocks of the range to
  \<open>tbb::parallel_for\<close>, which may split the range down to single elements: any two
  elements may run on different threads. \<open>std::ranges::for_each\<close> is the sequential loop.
\<close>

definition for_each :: "'a list \<Rightarrow> ('a \<Rightarrow> 'b sched) \<Rightarrow> 'b sched" where
  "for_each range' func = Par (map func range')"

definition ranges_for_each :: "'a list \<Rightarrow> ('a \<Rightarrow> 'b sched) \<Rightarrow> 'b sched" where
  "ranges_for_each range' func = Seq (map func range')"

text \<open>
  \<open>std::views::chunk(range, n)\<close>: consecutive pieces of \<open>n\<close> elements, the last one
  shorter when \<open>n\<close> does not divide the size. The standard requires \<open>n > 0\<close>; the model
  gives no piece at all for \<open>n = 0\<close>.
\<close>

function chunk :: "nat \<Rightarrow> 'a list \<Rightarrow> 'a list list" where
  "chunk n xs = (if n = 0 \<or> xs = [] then [] else take n xs # chunk n (drop n xs))"
  by pat_completeness auto
termination
  by (relation "measure (\<lambda>(n, xs). length xs)") auto

declare chunk.simps [simp del]

text \<open>
  \<open>BlockForEach::operator()\<close>: \<open>std::ranges::for_each\<close> over the chunks of
  \<open>num_threads()\<close> outer elements; each chunk is given to \<open>par::for_each\<close>, whose body
  runs \<open>std::ranges::for_each\<close> over one outer element.
\<close>

definition block_for_each :: "nat \<Rightarrow> 'a list list \<Rightarrow> 'a sched" where
  "block_for_each num_threads range' =
     ranges_for_each (chunk num_threads range')
       (\<lambda>c. for_each c (\<lambda>inner. ranges_for_each inner Call))"

text \<open>
  The pairs of calls that a schedule allows to overlap in time: calls below two
  different children of one parallel loop.
\<close>

definition cross :: "'a list list \<Rightarrow> ('a \<times> 'a) list" where
  "cross cs = concat (map (\<lambda>i. concat (map (\<lambda>j. if i = j then [] else List.product (cs ! i) (cs ! j))
                                   [0..<length cs])) [0..<length cs])"

fun overlap :: "'a sched \<Rightarrow> ('a \<times> 'a) list" where
  "overlap (Call x) = []"
| "overlap (Seq ss) = concat (map overlap ss)"
| "overlap (Par ss) = concat (map overlap ss) @ cross (map calls ss)"

section \<open>Weighted graphs and coarsening (tit/graph/graph.hpp, tit/graph/coarsen.hpp)\<close>

subsection \<open>The weighted graph\<close>

text \<open>
  Modelled from the spec: \<open>WeightedGraph\<close> (tit/graph/graph.hpp) is not among the sources.
  The spec describes a compressed-row structure, \<open>offsets[0..n]\<close>, \<open>neighbors[0..m]\<close>,
  \<open>edge_weights[0..m]\<close> and \<open>node_weights[0..n]\<close>; \<open>append_node(w, neighbor_map)\<close> pushes one
  node with its map from neighbour to edge weight, copying the entries in map order, and
  \<open>wedges()\<close> yields the unordered edges once, as \<open>(a, b, w)\<close> with \<open>a < b\<close>. Node ids and
  weights are unsigned machine integers that count nodes and sum weights held in memory;
  they are natural numbers here.
\<close>

record WeightedGraph =
  offsets :: "nat list"
  neighbors :: "nat list"
  edge_weights :: "nat list"
  node_weights :: "nat list"

definition clear :: WeightedGraph where
  "clear = \<lparr>offsets = [0], neighbors = [], edge_weights = [], node_weights = []\<rparr>"

definition num_nodes :: "WeightedGraph \<Rightarrow> nat" where
  "num_nodes g = length (node_weights g)"

definition nodes :: "WeightedGraph \<Rightarrow> nat list" where
  "nodes g = [0..<num_nodes g]"

definition weight :: "WeightedGraph \<Rightarrow> nat \<Rightarrow> nat" where
  "weight g n = node_weights g ! n"

text \<open>\<open>wedges(node)\<close>: the neighbours of one node with the weights of the edges to them.\<close>

definition wedges_of :: "WeightedGraph \<Rightarrow> nat \<Rightarrow> (nat \<times> nat) list" where
  "wedges_of g n =
     zip (subrange (neighbors g) (offsets g ! n) (offsets g ! (n + 1)))
         (subrange (edge_weights g) (offsets g ! n) (offsets g ! (n + 1)))"

definition wedges :: "WeightedGraph \<Rightarrow> (nat \<times> nat \<times> nat) list" where
  "wedges g =
     concat (map (\<lambda>a. map (\<lambda>(b, w). (a, b, w)) (filter (\<lambda>(b, w). a < b) (wedges_of g a)))
                 (nodes g))"

definition append_node :: "nat \<Rightarrow> (nat \<times> nat) list \<Rightarrow> WeightedGraph \<Rightarrow> WeightedGraph" where
  "append_node w neighbor_map g =
     \<lparr>offsets = offsets g @ [last (offsets g) + length neighbor_map],
      neighbors = neighbors g @ map fst neighbor_map,
      edge_weights = edge_weights g @ map snd neighbor_map,
      node_weights = node_weights g @ [w]\<rparr>"

text \<open>
  The neighbours a graph lists are nodes of the graph. The graph class keeps this
  invariant; the coarsening functions index \<open>fine_to_coarse\<close> by neighbour ids and rely on it.
\<close>

definition wf_graph :: "WeightedGraph \<Rightarrow> bool" where
  "wf_graph g = list_all (\<lambda>a. list_all (\<lambda>(b, w). b < num_nodes g) (wedges_of g a)) (nodes g)"

subsection \<open>Helpers of the coarsening functions\<close>

text \<open>
  \<open>npos\<close> is the largest \<open>size_t\<close>. In \<open>fine_to_coarse\<close> it marks a fine node that has no
  coarse node yet; the model writes \<open>None\<close> for that mark and \<open>Some c\<close> for the coarse
  node \<open>c\<close>. A graph in memory has fewer than \<open>npos\<close> nodes, so no coarse node is \<open>npos\<close>.
\<close>

definition npos :: nat where
  "npos = 18446744073709551615"

fun node_id :: "nat option \<Rightarrow> nat" where
  "node_id None = npos"
| "node_id (Some c) = c"

text \<open>
  \<open>par::sort\<close> is \<open>tbb::parallel_sort\<close> with the comparator applied to the projections: a
  comparison sort that is not stable. The model sorts by insertion, which gives one of the
  orders the source may give, and the only one when no two keys are equal.
\<close>

fun insort_by :: "('a \<Rightarrow> 'a \<Rightarrow> bool) \<Rightarrow> 'a \<Rightarrow> 'a list \<Rightarrow> 'a list" where
  "insort_by cmp x [] = [x]"
| "insort_by cmp x (y # ys) = (if cmp y x then y # insort_by cmp x ys else x # y # ys)"

definition sort_by :: "('a \<Rightarrow> 'a \<Rightarrow> bool) \<Rightarrow> 'a list \<Rightarrow> 'a list" where
  "sort_by cmp xs = foldr (insort_by cmp) xs []"

text \<open>\<open>std::less\<close> on a pair and \<open>std::greater\<close> on a triple: the lexicographic orders of \<open>std::tuple\<close>.\<close>

fun tuple_less :: "nat \<times> nat \<Rightarrow> nat \<times> nat \<Rightarrow> bool" where
  "tuple_less (a, b) (a', b') = (a < a' \<or> (a = a' \<and> b < b'))"

fun tuple_greater :: "nat \<times> nat \<times> nat \<Rightarrow> nat \<times> nat \<times> nat \<Rightarrow> bool" where
  "tuple_greater (a, b, c) (a', b', c') =
     (a > a' \<or> (a = a' \<and> (b > b' \<or> (b = b' \<and> c > c'))))"

text \<open>
  Modelled from the spec: \<open>equality_ranges\<close> (tit/core/utils.hpp) is not among the sources.
  The spec groups the fine nodes by their \<open>fine_to_coarse\<close> value, each group becoming one
  coarse node: the function cuts its range into the maximal runs of consecutive elements
  with equal projections and calls the body on each run, in order.
\<close>

function equality_ranges :: "('a \<Rightarrow> 'k) \<Rightarrow> 'a list \<Rightarrow> 'a list list" where
  "equality_ranges proj [] = []"
| "equality_ranges proj (x # xs) =
     (x # takeWhile (\<lambda>y. proj y = proj x) xs)
       # equality_ranges proj (dropWhile (\<lambda>y. proj y = proj x) xs)"
  by pat_completeness auto
termination
  by (relation "measure (\<lambda>(proj, xs). length xs)") (auto simp: length_dropWhile_le less_Suc_eq_le)

text \<open>
  \<open>SmallFlatMap<node_t, weight_t, 32>\<close>: a map kept as a vector of entries sorted by key;
  \<open>map[k] += w\<close> adds to the entry of \<open>k\<close>, which is inserted with weight zero first when
  the map has none.
\<close>

fun flat_map_add :: "nat \<Rightarrow> nat \<Rightarrow> (nat \<times> nat) list \<Rightarrow> (nat \<times> nat) list" where
  "flat_map_add k w [] = [(k, w)]"
| "flat_map_add k w ((k', w') # m) =
     (if k = k' then (k', w' + w) # m
      else if k < k' then (k, w) # (k', w') # m
      else (k', w') # flat_map_add k w m)"

subsection \<open>Building the coarse graph\<close>

text \<open>
  \<open>impl::build_coarse_graph\<close>: the coarse graph is cleared, and every run of
  \<open>coarse_to_fine\<close> with one \<open>fine_to_coarse\<close> value appends one coarse node, whose weight is
  the sum of the weights of its fine nodes and whose neighbour map adds up the weights of
  their edges by the coarse node of the neighbour.
\<close>

definition coarse_node_of ::
  "WeightedGraph \<Rightarrow> nat option list \<Rightarrow> nat list \<Rightarrow> nat \<times> (nat \<times> nat) list" where
  "coarse_node_of fine_graph fine_to_coarse fine_nodes =
     foldl (\<lambda>(coarse_weight, coarse_neighbors) fine_node.
              (coarse_weight + weight fine_graph fine_node,
               foldl (\<lambda>cn (fine_neighbor, fine_edge_weight).
                        flat_map_add (node_id (fine_to_coarse ! fine_neighbor)) fine_edge_weight cn)
                     coarse_neighbors (wedges_of fine_graph fine_node)))
           (0, []) fine_nodes"

definition build_coarse_graph ::
  "WeightedGraph \<Rightarrow> nat list \<Rightarrow> nat option list \<Rightarrow> WeightedGraph" where
  "build_coarse_graph fine_graph coarse_to_fine fine_to_coarse =
     foldl (\<lambda>coarse_graph fine_nodes.
              case coarse_node_of fine_graph fine_to_coarse fine_nodes of
                (coarse_weight, coarse_neighbors) \<Rightarrow>
                  append_node coarse_weight coarse_neighbors coarse_graph)
           clear
           (equality_ranges (\<lambda>fn. fine_to_coarse ! fn) coarse_to_fine)"

subsection \<open>The two matchings\<close>

text \<open>The state of the loops that build the mapping.\<close>

record matching =
  coarse_node :: nat
  coarse_to_fine :: "nat list"
  fine_to_coarse :: "nat option list"

definition matching_init :: "nat \<Rightarrow> matching" where
  "matching_init n = \<lparr>coarse_node = 0, coarse_to_fine = [], fine_to_coarse = replicate n None\<rparr>"

text \<open>
  \<open>CoarsenGEM::operator()\<close>. \<open>randomized_hash\<close> (tit/core/rand_utils.hpp) is not among the
  sources and is a parameter. The edges are sorted with \<open>std::greater\<close> on the triple of the
  edge weight, the smaller of the two node weights and the hash.
\<close>

definition gem_key :: "(nat \<Rightarrow> nat \<Rightarrow> nat) \<Rightarrow> WeightedGraph \<Rightarrow> nat \<times> nat \<times> nat \<Rightarrow> nat \<times> nat \<times> nat" where
  "gem_key randomized_hash fine_graph we =
     (case we of (fine_node, fine_neighbor, edge_weight) \<Rightarrow>
        (edge_weight,
         min (weight fine_graph fine_neighbor) (weight fine_graph fine_node),
         randomized_hash fine_neighbor fine_node))"

definition gem_fine_edges :: "(nat \<Rightarrow> nat \<Rightarrow> nat) \<Rightarrow> WeightedGraph \<Rightarrow> (nat \<times> nat \<times> nat) list" where
  "gem_fine_edges randomized_hash fine_graph =
     sort_by (\<lambda>x y. tuple_greater (gem_key randomized_hash fine_graph x)
                                   (gem_key randomized_hash fine_graph y))
             (wedges fine_graph)"

fun gem_merge :: "(nat \<times> nat \<times> nat) list \<Rightarrow> matching \<Rightarrow> matching" where
  "gem_merge [] m = m"
| "gem_merge ((fine_node, fine_neighbor, w) # es) m =
     (if fine_to_coarse m ! fine_node \<noteq> None then gem_merge es m
      else if fine_to_coarse m ! fine_neighbor \<noteq> None then gem_merge es m
      else gem_merge es
             \<lparr>coarse_node = coarse_node m + 1,
              coarse_to_fine = coarse_to_fine m @ [fine_node, fine_neighbor],
              fine_to_coarse = (fine_to_coarse m)[fine_node := Some (coarse_node m),
                                                   fine_neighbor := Some (coarse_node m)]\<rparr>)"

fun gem_rest :: "nat list \<Rightarrow> matching \<Rightarrow> matching" where
  "gem_rest [] m = m"
| "gem_rest (fine_node # ns) m =
     (if fine_to_coarse m ! fine_node \<noteq> None then gem_rest ns m
      else gem_rest ns
             \<lparr>coarse_node = coarse_node m + 1,
              coarse_to_fine = coarse_to_fine m @ [fine_node],
              fine_to_coarse = (fine_to_coarse m)[fine_node := Some (coarse_node m)]\<rparr>)"

definition gem_matching :: "(nat \<Rightarrow> nat \<Rightarrow> nat) \<Rightarrow> WeightedGraph \<Rightarrow> matching" where
  "gem_matching randomized_hash fine_graph =
     gem_rest (nodes fine_graph)
       (gem_merge (gem_fine_edges randomized_hash fine_graph)
                  (matching_init (num_nodes fine_graph)))"

definition CoarsenGEM ::
  "(nat \<Rightarrow> nat \<Rightarrow> nat) \<Rightarrow> WeightedGraph \<Rightarrow> WeightedGraph \<times> nat list \<times> nat option list" where
  "CoarsenGEM randomized_hash fine_graph =
     (let m = gem_matching randomized_hash fine_graph
      in (build_coarse_graph fine_graph (coarse_to_fine m) (fine_to_coarse m),
          coarse_to_fine m, fine_to_coarse m))"

text \<open>
  \<open>CoarsenHEM::operator()\<close>. Not among the sources, and parameters of the model:
  \<open>randomized_hash\<close>, the comparison helpers \<open>greater_or\<close> and \<open>less_or\<close>, the generator
  \<open>SplitMix64\<close> (its state after seeding with the number of nodes, and \<open>less_or\<close> returning
  the state it leaves), and the value that \<open>fine_graph.weight(best_neighbor)\<close> reads while
  \<open>best_neighbor\<close> is still \<open>npos\<close>.
\<close>

record 'r hem_env =
  hem_hash :: "nat \<Rightarrow> nat"
  greater_or :: "nat \<Rightarrow> nat \<Rightarrow> bool \<Rightarrow> bool"
  less_or :: "nat \<Rightarrow> nat \<Rightarrow> 'r \<Rightarrow> bool \<times> 'r"
  rng_seed :: "nat \<Rightarrow> 'r"
  weight_npos :: nat

definition weight_at :: "'r hem_env \<Rightarrow> WeightedGraph \<Rightarrow> nat option \<Rightarrow> nat" where
  "weight_at env g n = (case n of None \<Rightarrow> weight_npos env | Some b \<Rightarrow> weight g b)"

definition hem_fine_nodes :: "'r hem_env \<Rightarrow> WeightedGraph \<Rightarrow> nat list" where
  "hem_fine_nodes env fine_graph =
     sort_by (\<lambda>x y. tuple_less (weight fine_graph x, hem_hash env x)
                                (weight fine_graph y, hem_hash env y))
             (nodes fine_graph)"

text \<open>The inner loop: the best unmatched neighbour, its edge weight and the generator.\<close>

fun hem_scan ::
  "'r hem_env \<Rightarrow> WeightedGraph \<Rightarrow> nat option list \<Rightarrow> (nat \<times> nat) list
     \<Rightarrow> nat option \<times> nat \<times> 'r \<Rightarrow> nat option \<times> nat \<times> 'r" where
  "hem_scan env g f2c [] s = s"
| "hem_scan env g f2c ((fine_neighbor, edge_weight) # rest) (best_neighbor, best_edge_weight, rng) =
     (if f2c ! fine_neighbor \<noteq> None then hem_scan env g f2c rest (best_neighbor, best_edge_weight, rng)
      else case less_or env (weight g fine_neighbor) (weight_at env g best_neighbor) rng of
        (lt, rng') \<Rightarrow>
          if greater_or env edge_weight best_edge_weight lt
          then hem_scan env g f2c rest (Some fine_neighbor, edge_weight, rng')
          else hem_scan env g f2c rest (best_neighbor, best_edge_weight, rng'))"

text \<open>
  The outer loop. The node takes the current coarse node, which is then advanced; the
  best neighbour, when there is one, takes the coarse node as it is after the advance.
\<close>

fun hem_loop :: "'r hem_env \<Rightarrow> WeightedGraph \<Rightarrow> nat list \<Rightarrow> matching \<times> 'r \<Rightarrow> matching \<times> 'r" where
  "hem_loop env g [] s = s"
| "hem_loop env g (fine_node # rest) (m, rng) =
     (if fine_to_coarse m ! fine_node \<noteq> None then hem_loop env g rest (m, rng)
      else
        let m1 = \<lparr>coarse_node = coarse_node m + 1,
                  coarse_to_fine = coarse_to_fine m @ [fine_node],
                  fine_to_coarse = (fine_to_coarse m)[fine_node := Some (coarse_node m)]\<rparr>
        in case hem_scan env g (fine_to_coarse m1) (wedges_of g fine_node) (None, 0, rng) of
             (best_neighbor, best_edge_weight, rng') \<Rightarrow>
               hem_loop env g rest
                 (case best_neighbor of
                    None \<Rightarrow> m1
                  | Some b \<Rightarrow>
                      \<lparr>coarse_node = coarse_node m1,
                       coarse_to_fine = coarse_to_fine m1 @ [b],
                       fine_to_coarse = (fine_to_coarse m1)[b := Some (coarse_node m1)]\<rparr>,
                  rng'))"

definition hem_matching :: "'r hem_env \<Rightarrow> WeightedGraph \<Rightarrow> matching" where
  "hem_matching env fine_graph =
     fst (hem_loop env fine_graph (hem_fine_nodes env fine_graph)
            (matching_init (num_nodes fine_graph), rng_seed env (num_nodes fine_graph)))"

definition CoarsenHEM ::
  "'r hem_env \<Rightarrow> WeightedGraph \<Rightarrow> WeightedGraph \<times> nat list \<times> nat option list" where
  "CoarsenHEM env fine_graph =
     (let m = hem_matching env fine_graph
      in (build_coarse_graph fine_graph (coarse_to_fine m) (fine_to_coarse m),
          coarse_to_fine m, fine_to_coarse m))"

text \<open>
  A path of three nodes with the weights 1, 5 and 5 and two edges of weight 1, built as the
  graph class builds it.
\<close>

definition path3 :: WeightedGraph where
  "path3 = append_node 5 [(1, 1)] (append_node 5 [(0, 1), (2, 1)] (append_node 1 [(1, 1)] clear))"

subsection \<open>What a coarsening function must deliver\<close>

text \<open>
  The result of a coarsening function is the coarse graph, \<open>coarse_to_fine\<close> and
  \<open>fine_to_coarse\<close>. The mapping is right when every fine node has a coarse node, the
  largest coarse node plus one is the number of nodes of the coarse graph, and every fine
  node stands in the run of \<open>coarse_to_fine\<close> that belongs to its coarse node (the runs are
  numbered in order, as \<open>build_coarse_graph\<close> appends them).
\<close>

definition coarse_map_ok :: "WeightedGraph \<Rightarrow> WeightedGraph \<times> nat list \<times> nat option list \<Rightarrow> bool" where
  "coarse_map_ok fine_graph res =
     (case res of (coarse_graph, c2f, f2c) \<Rightarrow>
        length f2c = num_nodes fine_graph \<and>
        list_all (\<lambda>c. c \<noteq> None) f2c \<and>
        (0 < num_nodes fine_graph \<longrightarrow> Max (set (map node_id f2c)) + 1 = num_nodes coarse_graph) \<and>
        list_all (\<lambda>i. node_id (f2c ! i) < num_nodes coarse_graph \<and>
                       i \<in> set (equality_ranges (\<lambda>fn. f2c ! fn) c2f ! node_id (f2c ! i)))
                 (nodes fine_graph))"

text \<open>
  The invariant of the matching loops: \<open>coarse_to_fine\<close> is the concatenation of the groups
  \<open>gs\<close>, none of them empty, the nodes of group \<open>k\<close> are mapped to coarse node \<open>k\<close>, and
  every mapped node is in \<open>coarse_to_fine\<close>.
\<close>

definition grouped :: "nat \<Rightarrow> nat list list \<Rightarrow> matching \<Rightarrow> bool" where
  "grouped n gs m \<longleftrightarrow>
     coarse_to_fine m = concat gs \<and> length (fine_to_coarse m) = n \<and>
     (\<forall>g \<in> set gs. g \<noteq> []) \<and>
     (\<forall>k < length gs. \<forall>i \<in> set (gs ! k). i < n \<and> fine_to_coarse m ! i = Some k) \<and>
     (\<forall>i < n. fine_to_coarse m ! i \<noteq> None \<longrightarrow> i \<in> set (coarse_to_fine m))"

text \<open>
  One choice of the parameters of HEM, for evaluating it: the hash of a node is the node,
  \<open>greater_or a b c\<close> is \<open>a > b\<close> or else \<open>c\<close> when they are equal, \<open>less_or\<close> compares with
  \<open><\<close> and does not touch the generator, which has no state.
\<close>

definition hem_env_example :: "unit hem_env" where
  "hem_env_example =
     \<lparr>hem_hash = (\<lambda>a. a),
      greater_or = (\<lambda>a b c. a > b \<or> (a = b \<and> c)),
      less_or = (\<lambda>a b r. (a < b, r)),
      rng_seed = (\<lambda>n. ()),
      weight_npos = 0\<rparr>"

section \<open>The multilevel partitioner (tit/graph/partition/multilevel.hpp, simple.hpp)\<close>

text \<open>
  \<open>permuted_view(range, perm)\<close> reads \<open>range[perm[i]]\<close> for every \<open>i\<close>, and
  \<open>std::ranges::copy(src, std::begin(dst))\<close> overwrites the first elements of \<open>dst\<close>. Reading
  or writing past the end is undefined in the source; the model answers \<open>None\<close>.
\<close>

definition permuted_view :: "'a list \<Rightarrow> nat list \<Rightarrow> 'a list option" where
  "permuted_view range' perm =
     (if list_all (\<lambda>i. i < length range') perm then Some (map (\<lambda>i. range' ! i) perm) else None)"

definition copy_into :: "'a list \<Rightarrow> 'a list \<Rightarrow> 'a list option" where
  "copy_into src dst =
     (if length src \<le> length dst then Some (src @ drop (length src) dst) else None)"

text \<open>
  The test that ends the coarsening, as the recursive lambda computes it on \<open>size_t\<close>
  values. The two products stay far below \<open>2^64\<close> for graphs that fit in memory.
\<close>

definition stop_coarsening :: "nat \<Rightarrow> WeightedGraph \<Rightarrow> WeightedGraph \<Rightarrow> bool" where
  "stop_coarsening num_parts fine_graph coarse_graph \<longleftrightarrow>
     num_nodes coarse_graph \<le> 15 * num_parts \<or>
     num_nodes coarse_graph * 10 \<ge> num_nodes fine_graph * 8"

text \<open>Projecting the coarse partition to the fine graph and refining it there.\<close>

definition project_and_refine ::
  "(WeightedGraph \<Rightarrow> nat list \<Rightarrow> nat \<Rightarrow> nat list) \<Rightarrow> nat \<Rightarrow> WeightedGraph \<Rightarrow> nat list
     \<Rightarrow> nat option list \<Rightarrow> nat list \<Rightarrow> nat list option" where
  "project_and_refine refine num_parts fine_graph fine_parts f2c coarse_parts =
     (case permuted_view coarse_parts (map node_id f2c) of
        None \<Rightarrow> None
      | Some projected \<Rightarrow>
          (case copy_into projected fine_parts of
             None \<Rightarrow> None
           | Some fine_parts' \<Rightarrow> Some (refine fine_graph fine_parts' num_parts)))"

text \<open>
  The recursive lambda of \<open>MultilevelPartition::operator()\<close>. The coarsening function, the
  partitioner of the coarsest graph and the refiner are template parameters of the class,
  and parameters here; the last two write into the parts they are given, which the model
  returns. A failed \<open>TIT_ASSERT\<close> and an access out of range are \<open>None\<close>. The vectors
  \<open>coarse_to_fine\<close> and \<open>fine_to_coarse\<close> of the source are \<open>c2f\<close> and \<open>f2c\<close>.
\<close>

function multilevel_rec ::
  "(WeightedGraph \<Rightarrow> WeightedGraph \<times> nat list \<times> nat option list)
     \<Rightarrow> (WeightedGraph \<Rightarrow> nat list \<Rightarrow> nat \<Rightarrow> nat list)
     \<Rightarrow> (WeightedGraph \<Rightarrow> nat list \<Rightarrow> nat \<Rightarrow> nat list)
     \<Rightarrow> nat \<Rightarrow> WeightedGraph \<Rightarrow> nat list \<Rightarrow> nat list option" where
  "multilevel_rec coarsen partition_coarsest refine num_parts fine_graph fine_parts =
     (if num_nodes fine_graph \<noteq> length fine_parts then None
      else case coarsen fine_graph of
        (coarse_graph, c2f, f2c) \<Rightarrow>
          (case (if stop_coarsening num_parts fine_graph coarse_graph
                 then Some (partition_coarsest coarse_graph
                              (replicate (num_nodes coarse_graph) 0) num_parts)
                 else multilevel_rec coarsen partition_coarsest refine num_parts coarse_graph
                        (replicate (num_nodes coarse_graph) 0)) of
             None \<Rightarrow> None
           | Some coarse_parts \<Rightarrow>
               project_and_refine refine num_parts fine_graph fine_parts f2c
                 coarse_parts))"
  by pat_completeness auto
termination
  by (relation "measure (\<lambda>(coarsen, partition_coarsest, refine, num_parts, fine_graph, fine_parts).
                           num_nodes fine_graph)")
     (auto simp: stop_coarsening_def)

declare multilevel_rec.simps [simp del]

text \<open>\<open>MultilevelPartition::operator()\<close>: the checks of the arguments, then the recursion.\<close>

definition MultilevelPartition ::
  "(WeightedGraph \<Rightarrow> WeightedGraph \<times> nat list \<times> nat option list)
     \<Rightarrow> (WeightedGraph \<Rightarrow> nat list \<Rightarrow> nat \<Rightarrow> nat list)
     \<Rightarrow> (WeightedGraph \<Rightarrow> nat list \<Rightarrow> nat \<Rightarrow> nat list)
     \<Rightarrow> WeightedGraph \<Rightarrow> nat list \<Rightarrow> nat \<Rightarrow> nat list option" where
  "MultilevelPartition coarsen partition_coarsest refine graph parts num_parts =
     (if \<not> 0 < num_parts then None
      else if \<not> num_parts \<le> num_nodes graph then None
      else if length parts \<noteq> num_nodes graph then None
      else multilevel_rec coarsen partition_coarsest refine num_parts graph parts)"

text \<open>
  The procedure as the spec words it:

  \<^verbatim>\<open>partition(G, parts, K): coarsen(G -> G', map)\<close>;
  \<^verbatim>\<open>if |V(G')| <= 15 K or |V(G')| / |V(G)| >= 0.8: partition_coarsest(G', parts')\<close>
  \<^verbatim>\<open>else: partition(G', parts', K)\<close>;
  \<^verbatim>\<open>project parts' back via map -> parts\<close>; \<^verbatim>\<open>refine(G, parts, K)\<close>.

  The quotient is a quotient of real numbers. The map sends every node of \<open>G\<close> to its node of
  \<open>G'\<close>, and the parts projected back through it give node \<open>i\<close> of \<open>G\<close> the part that \<open>parts'\<close>
  gives to the node \<open>map[i]\<close> of \<open>G'\<close>; the result is what the refiner makes of these parts.
\<close>

definition projected_back :: "nat option list \<Rightarrow> nat list \<Rightarrow> nat list \<Rightarrow> bool" where
  "projected_back map' parts' parts \<longleftrightarrow>
     length parts = length map' \<and>
     (\<forall>i < length map'. node_id (map' ! i) < length parts' \<and>
                         parts ! i = parts' ! node_id (map' ! i))"

inductive multilevel_spec ::
  "(WeightedGraph \<Rightarrow> WeightedGraph \<times> nat list \<times> nat option list)
     \<Rightarrow> (WeightedGraph \<Rightarrow> nat list \<Rightarrow> nat \<Rightarrow> nat list)
     \<Rightarrow> (WeightedGraph \<Rightarrow> nat list \<Rightarrow> nat \<Rightarrow> nat list)
     \<Rightarrow> nat \<Rightarrow> WeightedGraph \<Rightarrow> nat list \<Rightarrow> nat list \<Rightarrow> bool"
  for coarsen partition_coarsest refine K where
  coarsest:
    "length parts = num_nodes G \<Longrightarrow>
     coarsen G = (G', inverse_map, map') \<Longrightarrow>
     real (num_nodes G') \<le> 15 * real K \<or> real (num_nodes G') / real (num_nodes G) \<ge> 0.8 \<Longrightarrow>
     projected_back map' (partition_coarsest G' (replicate (num_nodes G') 0) K) projected \<Longrightarrow>
     result = refine G projected K \<Longrightarrow>
     multilevel_spec coarsen partition_coarsest refine K G parts result"
| recurse:
    "length parts = num_nodes G \<Longrightarrow>
     coarsen G = (G', inverse_map, map') \<Longrightarrow>
     \<not> (real (num_nodes G') \<le> 15 * real K \<or> real (num_nodes G') / real (num_nodes G) \<ge> 0.8) \<Longrightarrow>
     multilevel_spec coarsen partition_coarsest refine K G' (replicate (num_nodes G') 0) parts' \<Longrightarrow>
     projected_back map' parts' projected \<Longrightarrow>
     result = refine G projected K \<Longrightarrow>
     multilevel_spec coarsen partition_coarsest refine K G parts result"

text \<open>
  \<open>UniformPartition::operator()\<close> (simple.hpp): part \<open>part\<close> takes the nodes from \<open>first\<close> to
  \<open>last\<close>, the same bounds as the chunks of the deterministic loop.
\<close>

definition UniformPartition :: "WeightedGraph \<Rightarrow> nat list \<Rightarrow> nat \<Rightarrow> nat list" where
  "UniformPartition graph parts num_parts =
     foldl (\<lambda>ps part.
              foldl (\<lambda>ps i. ps[i := part]) ps
                    [chunk_first (num_nodes graph) num_parts part ..<
                     chunk_last (num_nodes graph) num_parts part])
           parts [0..<num_parts]"

text \<open>A path of \<open>n\<close> nodes with unit weights, built as the graph class builds it.\<close>

definition path_graph :: "nat \<Rightarrow> WeightedGraph" where
  "path_graph n =
     foldl (\<lambda>g i. append_node 1 ((if 0 < i then [(i - 1, 1)] else []) @
                                  (if i + 1 < n then [(i + 1, 1)] else [])) g)
           clear [0..<n]"

section \<open>The particle mesh (tit/sph/particle_mesh.hpp)\<close>

subsection \<open>Containers\<close>

text \<open>
  Modelled from the spec: \<open>Multivector\<close>, and \<open>graph::Graph\<close> on top of it
  (tit/core/multivector.hpp, tit/graph/graph.hpp), are not among the sources. The spec
  describes compressed per-node lists, offsets and values; \<open>append_bucket\<close> pushes one list,
  \<open>operator[]\<close> reads one, and \<open>assign_pairs_par_wide(count, pairs)\<close> builds \<open>count\<close> buckets,
  putting the value of every pair \<open>(key, value)\<close> into bucket \<open>key\<close>. The order inside a
  bucket is left open by the parallel primitive; the model keeps the order of the input.
  A key that is not below \<open>count\<close> has no bucket; the model answers \<open>None\<close>.
\<close>

record 'a Multivector =
  mv_offsets :: "nat list"
  mv_vals :: "'a list"

definition mv_clear :: "'a Multivector" where
  "mv_clear = \<lparr>mv_offsets = [0], mv_vals = []\<rparr>"

definition append_bucket :: "'a list \<Rightarrow> 'a Multivector \<Rightarrow> 'a Multivector" where
  "append_bucket xs mv =
     \<lparr>mv_offsets = mv_offsets mv @ [last (mv_offsets mv) + length xs],
      mv_vals = mv_vals mv @ xs\<rparr>"

definition num_buckets :: "'a Multivector \<Rightarrow> nat" where
  "num_buckets mv = length (mv_offsets mv) - 1"

definition bucket :: "'a Multivector \<Rightarrow> nat \<Rightarrow> 'a list" where
  "bucket mv i = subrange (mv_vals mv) (mv_offsets mv ! i) (mv_offsets mv ! (i + 1))"

definition buckets :: "'a Multivector \<Rightarrow> 'a list list" where
  "buckets mv = map (bucket mv) [0..<num_buckets mv]"

definition from_buckets :: "'a list list \<Rightarrow> 'a Multivector" where
  "from_buckets xss = foldl (\<lambda>mv xs. append_bucket xs mv) mv_clear xss"

definition assign_pairs_par_wide :: "nat \<Rightarrow> (nat \<times> 'a) list \<Rightarrow> 'a Multivector option" where
  "assign_pairs_par_wide cnt pairs =
     (if list_all (\<lambda>kv. fst kv < cnt) pairs
      then Some (from_buckets (map (\<lambda>k. map snd (filter (\<lambda>kv. fst kv = k) pairs)) [0..<cnt]))
      else None)"

text \<open>
  Modelled from the spec: the edges of the graph are its unordered pairs, each once, as the
  spec says of \<open>wedges()\<close>: \<open>(a, b)\<close> with \<open>b\<close> in the list of \<open>a\<close> and \<open>a < b\<close>.
  \<open>transform_edges(f)\<close> applies \<open>f\<close> to every edge.
\<close>

definition edges :: "nat Multivector \<Rightarrow> (nat \<times> nat) list" where
  "edges g = concat (map (\<lambda>a. map (\<lambda>b. (a, b)) (filter (\<lambda>b. a < b) (bucket g a)))
                         [0..<num_buckets g])"

definition transform_edges :: "nat Multivector \<Rightarrow> (nat \<times> nat \<Rightarrow> 'b) \<Rightarrow> 'b list" where
  "transform_edges g f = map f (edges g)"

subsection \<open>Particles\<close>

text \<open>
  Modelled from the spec: the particle array (tit/sph/particle_array.hpp) is not among the
  sources. It gives, for every index, the position (the field \<open>r\<close>, here \<open>r_pos\<close>), the type and the \<open>PartVec\<close>
  \<open>parinfo\<close>; \<open>fixed()\<close> runs over the indices of the fixed particles.
\<close>

type_synonym point = "real list"

datatype ParticleType = fluid | fixed

type_synonym PartVec = "nat list"

record ParticleArray =
  r_pos :: "point list"
  ptype :: "ParticleType list"
  parinfo :: "PartVec list"

definition size_of :: "ParticleArray \<Rightarrow> nat" where
  "size_of particles = length (r_pos particles)"

definition all_of :: "ParticleArray \<Rightarrow> nat list" where
  "all_of particles = [0..<size_of particles]"

definition has_type :: "ParticleArray \<Rightarrow> nat \<Rightarrow> ParticleType \<Rightarrow> bool" where
  "has_type particles b t \<longleftrightarrow> ptype particles ! b = t"

definition fixed_of :: "ParticleArray \<Rightarrow> nat list" where
  "fixed_of particles = filter (\<lambda>a. has_type particles a fixed) (all_of particles)"

text \<open>
  Modelled from the spec: \<open>PartVec::common\<close> (tit/sph/particle_array.hpp) is the length of
  the common prefix of two \<open>PartVec\<close>s.
\<close>

fun common :: "PartVec \<Rightarrow> PartVec \<Rightarrow> nat" where
  "common (x # xs) (y # ys) = (if x = y then Suc (common xs ys) else 0)"
| "common xs ys = 0"

subsection \<open>Geometry\<close>

text \<open>
  Positions are vectors of reals. \<open>within_radius p q rad\<close> is \<open>\<parallel>p - q\<parallel> \<le> rad\<close>, written with
  squares so that it can be evaluated.
\<close>

definition vec_sub :: "point \<Rightarrow> point \<Rightarrow> point" where
  "vec_sub p q = map2 (\<lambda>x y. x - y) p q"

definition norm2 :: "point \<Rightarrow> real" where
  "norm2 v = sum_list (map (\<lambda>x. x * x) v)"

definition within_radius :: "point \<Rightarrow> point \<Rightarrow> real \<Rightarrow> bool" where
  "within_radius p q rad \<longleftrightarrow> 0 \<le> rad \<and> norm2 (vec_sub p q) \<le> rad * rad"

text \<open>
  Modelled from the spec: \<open>geom::BBox::clamp\<close> (tit/geom/bbox.hpp) is not among the sources;
  it moves a point into the box, coordinate by coordinate. \<open>Domain\<close> is chosen by
  preprocessor flags and is a parameter, the pair of the low and the high corner.
\<close>

definition clamp :: "point \<times> point \<Rightarrow> point \<Rightarrow> point" where
  "clamp box p = map (\<lambda>(x, lo, hi). min (max x lo) hi) (zip p (zip (fst box) (snd box)))"

definition interp_point :: "point \<times> point \<Rightarrow> point \<Rightarrow> point" where
  "interp_point box search_point =
     map2 (\<lambda>b x. 2 * b - x) (clamp box search_point) search_point"

text \<open>
  Modelled from the spec: the search index (\<open>geom::GridSearch\<close>, tit/geom/search.hpp) is not
  among the sources. A query appends every index \<open>j\<close> with \<open>\<parallel>r_j - p\<parallel> \<le> rad\<close>, once; the
  order of the output is open, and the mesh sorts it. The search function is a template
  parameter of the mesh and a parameter of the model; \<open>search_contract\<close> is what the spec
  promises of it, and \<open>GridSearch\<close> is a search that keeps the promise.
\<close>

definition search_contract :: "(point list \<Rightarrow> point \<Rightarrow> real \<Rightarrow> nat list) \<Rightarrow> bool" where
  "search_contract search \<longleftrightarrow>
     (\<forall>positions p rad.
        distinct (search positions p rad) \<and>
        set (search positions p rad) = {j. j < length positions \<and> within_radius p (positions ! j) rad})"

definition GridSearch :: "point list \<Rightarrow> point \<Rightarrow> real \<Rightarrow> nat list" where
  "GridSearch positions p rad =
     filter (\<lambda>j. within_radius p (positions ! j) rad) [0..<length positions]"

subsection \<open>The mesh and its update\<close>

datatype error = Raised string | AssertFailed | EnsureFailed | OutOfRange

text \<open>
  What the mesh is built with: the search, the two partition functions (template
  parameters of the class), and the constants that are defined elsewhere: \<open>Domain\<close> (here
  \<open>mesh_Domain\<close>), the
  number of threads, \<open>PartVec::MaxNumLevels\<close> and the largest \<open>PartIndex\<close>. A partition
  function gets the positions, the parts of the level as they are, and the number of
  parts (the secondary one also the first part to use), and the model returns the parts
  it writes.
\<close>

record mesh_config =
  search_func :: "point list \<Rightarrow> point \<Rightarrow> real \<Rightarrow> nat list"
  partition_func :: "point list \<Rightarrow> nat list \<Rightarrow> nat \<Rightarrow> nat list"
  secondary_partition_func :: "point list \<Rightarrow> nat list \<Rightarrow> nat \<Rightarrow> nat \<Rightarrow> nat list"
  mesh_Domain :: "point \<times> point"
  num_threads :: nat
  MaxNumLevels :: nat
  PartIndex_max :: nat

record ParticleMesh =
  adjacency :: "nat Multivector"
  interp_adjacency :: "nat Multivector"
  block_edges :: "(nat \<times> nat) Multivector"

text \<open>
  A parallel loop whose body may raise: the results of all the tasks, or the error of a
  task that raised. When several tasks raise, the source rethrows one of them; the model
  takes the one of the smallest index.
\<close>

fun for_each_result :: "('a \<Rightarrow> error + 'b) \<Rightarrow> 'a list \<Rightarrow> error + 'b list" where
  "for_each_result f [] = Inr []"
| "for_each_result f (x # xs) =
     (case f x of
        Inl e \<Rightarrow> Inl e
      | Inr y \<Rightarrow> (case for_each_result f xs of Inl e \<Rightarrow> Inl e | Inr ys \<Rightarrow> Inr (y # ys)))"

text \<open>
  \<open>ParticleMesh::search_\<close>. The radius function may raise. The first loop fills one sorted
  list per particle; only after it has ended is \<open>adjacency_\<close> cleared and refilled. The second
  loop does the same for the fixed particles, around the mirror point and with three times
  the radius, dropping the fixed hits. The result is the error, if any, and the mesh as the
  call leaves it. The function-static scratch vectors are overwritten entry by entry before
  they are read, and are left out.
\<close>

definition neighbors_task ::
  "mesh_config \<Rightarrow> ParticleArray \<Rightarrow> (nat \<Rightarrow> error + real) \<Rightarrow> nat \<Rightarrow> error + nat list" where
  "neighbors_task cfg particles radius_func a =
     (case radius_func a of
        Inl e \<Rightarrow> Inl e
      | Inr search_radius \<Rightarrow>
          if \<not> search_radius > 0 then Inl AssertFailed
          else Inr (sort (search_func cfg (r_pos particles) (r_pos particles ! a) search_radius)))"

definition interp_task ::
  "mesh_config \<Rightarrow> ParticleArray \<Rightarrow> (nat \<Rightarrow> error + real) \<Rightarrow> nat \<Rightarrow> error + nat list" where
  "interp_task cfg particles radius_func a =
     (case radius_func a of
        Inl e \<Rightarrow> Inl e
      | Inr rad \<Rightarrow>
          Inr (sort (filter (\<lambda>b. \<not> has_type particles b fixed)
                 (search_func cfg (r_pos particles)
                    (interp_point (mesh_Domain cfg) (r_pos particles ! a)) (3 * rad)))))"

definition search_impl ::
  "mesh_config \<Rightarrow> ParticleMesh \<Rightarrow> ParticleArray \<Rightarrow> (nat \<Rightarrow> error + real)
     \<Rightarrow> error option \<times> ParticleMesh" where
  "search_impl cfg mesh particles radius_func =
     (case for_each_result (neighbors_task cfg particles radius_func) (all_of particles) of
        Inl e \<Rightarrow> (Some e, mesh)
      | Inr adj \<Rightarrow>
          (case for_each_result (interp_task cfg particles radius_func) (fixed_of particles) of
             Inl e \<Rightarrow> (Some e, mesh\<lparr>adjacency := from_buckets adj\<rparr>)
           | Inr interp_adj \<Rightarrow>
               (None, mesh\<lparr>adjacency := from_buckets adj,
                           interp_adjacency := from_buckets interp_adj\<rparr>)))"

text \<open>
  Writing the parts of one level through a view: entry \<open>k\<close> of the values goes to level
  \<open>level\<close> of the \<open>PartVec\<close> of particle \<open>perm[k]\<close>.
\<close>

definition write_level :: "nat \<Rightarrow> nat list \<Rightarrow> nat list \<Rightarrow> PartVec list \<Rightarrow> PartVec list" where
  "write_level level perm vals parts =
     foldl (\<lambda>ps (i, v). ps[i := (ps ! i)[level := v]]) parts (zip perm vals)"

definition is_interface :: "nat Multivector \<Rightarrow> PartVec list \<Rightarrow> nat \<Rightarrow> nat \<Rightarrow> bool" where
  "is_interface adj parts level a \<longleftrightarrow>
     list_ex (\<lambda>b. parts ! a ! level \<noteq> parts ! b ! level) (bucket adj a)"

text \<open>
  One round of the loop over the levels, on the parts and the interface list. On the first
  level all particles are partitioned, on the others the interface particles only, with
  parts from \<open>level * num_threads\<close> on. Unless the level is the last, the interface is
  then the particles (of all, or of the old interface) that have a neighbour in another
  part of this level. \<open>par::copy_if\<close> and \<open>std::ranges::partition\<close> leave the order of the
  kept indices open; the model keeps it.
\<close>

definition level_step ::
  "mesh_config \<Rightarrow> nat Multivector \<Rightarrow> point list \<Rightarrow> nat \<Rightarrow> PartVec list \<times> nat list \<Rightarrow> nat
     \<Rightarrow> PartVec list \<times> nat list" where
  "level_step cfg adj positions num_levels st level =
     (case st of (parts, interface) \<Rightarrow>
        let is_first_level = (level = 0);
            is_last_level = (level = num_levels - 1);
            parts' =
              (if is_first_level
               then write_level level [0..<length parts]
                      (partition_func cfg positions (map (\<lambda>p. p ! level) parts) (num_threads cfg))
                      parts
               else write_level level interface
                      (secondary_partition_func cfg
                         (map (\<lambda>i. positions ! i) interface)
                         (map (\<lambda>i. parts ! i ! level) interface)
                         (num_threads cfg) (level * num_threads cfg))
                      parts)
        in if is_last_level then (parts', interface)
           else if is_first_level
           then (parts', filter (is_interface adj parts' level) [0..<length parts'])
           else (parts', filter (is_interface adj parts' level) interface))"

text \<open>
  \<open>ParticleMesh::partition_\<close>: the checks, the fill of every \<open>PartVec\<close> with the last part,
  the levels, and the block edges keyed by \<open>PartVec::common\<close>, in \<open>num_parts + 1\<close> buckets.
  The result is the error, if any, the mesh and the particles with their new \<open>parinfo\<close>.
\<close>

definition partition_impl ::
  "mesh_config \<Rightarrow> ParticleMesh \<Rightarrow> ParticleArray \<Rightarrow> nat
     \<Rightarrow> error option \<times> ParticleMesh \<times> ParticleArray" where
  "partition_impl cfg mesh particles num_levels =
     (if \<not> num_levels < MaxNumLevels cfg then (Some AssertFailed, mesh, particles)
      else
        let num_parts = num_levels * num_threads cfg + 1 in
        if \<not> num_parts \<le> PartIndex_max cfg then (Some EnsureFailed, mesh, particles)
        else
          let parts0 = replicate (size_of particles) (replicate (MaxNumLevels cfg) (num_parts - 1));
              parts = fst (foldl (level_step cfg (adjacency mesh) (r_pos particles) num_levels)
                                 (parts0, []) [0..<num_levels]);
              particles' = particles\<lparr>parinfo := parts\<rparr>
          in case assign_pairs_par_wide (num_parts + 1)
                    (transform_edges (adjacency mesh)
                       (\<lambda>ab. (common (parts ! fst ab) (parts ! snd ab), ab))) of
               None \<Rightarrow> (Some OutOfRange, mesh, particles')
             | Some be \<Rightarrow> (None, mesh\<lparr>block_edges := be\<rparr>, particles'))"

text \<open>\<open>ParticleMesh::update\<close>: the search, then the partition with two levels.\<close>

definition update ::
  "mesh_config \<Rightarrow> ParticleMesh \<Rightarrow> ParticleArray \<Rightarrow> (nat \<Rightarrow> error + real)
     \<Rightarrow> error option \<times> ParticleMesh \<times> ParticleArray" where
  "update cfg mesh particles radius_func =
     (case search_impl cfg mesh particles radius_func of
        (Some e, mesh') \<Rightarrow> (Some e, mesh', particles)
      | (None, mesh') \<Rightarrow> partition_impl cfg mesh' particles 2)"

text \<open>
  The accessors: \<open>operator[]\<close> gives the neighbours of a particle, \<open>fixed_interp\<close> the
  interpolation neighbours of a fixed particle, found at its distance from the first fixed
  particle, and \<open>block_pairs\<close> the buckets of the block edges.
\<close>

definition neighbors_of :: "ParticleMesh \<Rightarrow> nat \<Rightarrow> nat list" where
  "neighbors_of mesh a = bucket (adjacency mesh) a"


definition block_pairs :: "ParticleMesh \<Rightarrow> (nat \<times> nat) list list" where
  "block_pairs mesh = buckets (block_edges mesh)"

subsection \<open>A small scene\<close>

text \<open>
  One thread, three levels at most, the domain \<open>[0, 1]\<close> on a line, and partition functions
  that put every particle they are given into the first part they may use (with one thread
  there is no other part). Four particles: fluid ones at 0, 1 and 2 and a fixed one at -1,
  all with the search radius 3/2.
\<close>

definition scene_config :: mesh_config where
  "scene_config =
     \<lparr>search_func = GridSearch,
      partition_func = (\<lambda>positions parts n. map (\<lambda>p. 0) parts),
      secondary_partition_func = (\<lambda>positions parts n init_part. map (\<lambda>p. init_part) parts),
      mesh_Domain = ([0], [1]),
      num_threads = 1,
      MaxNumLevels = 3,
      PartIndex_max = 255\<rparr>"

definition scene_particles :: ParticleArray where
  "scene_particles =
     \<lparr>r_pos = [[0], [1], [2], [-1]],
      ptype = [fluid, fluid, fluid, fixed],
      parinfo = [[], [], [], []]\<rparr>"

definition scene_radius :: "nat \<Rightarrow> error + real" where
  "scene_radius a = Inr (3 / 2)"

definition empty_mesh :: ParticleMesh where
  "empty_mesh = \<lparr>adjacency = mv_clear, interp_adjacency = mv_clear, block_edges = mv_clear\<rparr>"

definition scene_mesh :: ParticleMesh where
  "scene_mesh = fst (snd (update scene_config empty_mesh scene_particles scene_radius))"





section \<open>Properties of the parallel primitives\<close>

subsection \<open>The chunks of the deterministic loop\<close>

lemma chunk_last_eq_first_Suc: "chunk_last n cnt t = chunk_first n cnt (Suc t)"
  by (simp add: chunk_last_def chunk_first_def)

lemma chunk_first_le_last: "chunk_first n cnt t \<le> chunk_last n cnt t"
  by (simp add: chunk_last_def chunk_first_def add_mono)

lemma chunk_first_zero: "chunk_first n cnt 0 = 0"
  by (simp add: chunk_first_def)

lemma chunk_first_all: "0 < cnt \<Longrightarrow> chunk_first n cnt cnt = n"
proof -
  assume "0 < cnt"
  then have "n mod cnt < cnt" by simp
  then have "min cnt (n mod cnt) = n mod cnt" by simp
  then show ?thesis by (simp add: chunk_first_def)
qed

lemma chunk_size:
  "chunk_last n cnt t - chunk_first n cnt t = (if t < n mod cnt then n div cnt + 1 else n div cnt)"
  by (simp add: chunk_last_def chunk_first_def min_def)

lemma concat_chunks_take:
  "k \<le> cnt \<Longrightarrow>
   concat (map (\<lambda>t. subrange xs (chunk_first (length xs) cnt t) (chunk_last (length xs) cnt t)) [0..<k])
     = take (chunk_first (length xs) cnt k) xs"
proof (induction k)
  case 0
  then show ?case by (simp add: chunk_first_zero)
next
  case (Suc k)
  let ?f = "chunk_first (length xs) cnt"
  have le: "?f k \<le> ?f (Suc k)"
    using chunk_first_le_last [of "length xs" cnt k] by (simp add: chunk_last_eq_first_Suc)
  have "take (?f k) xs @ take (?f (Suc k) - ?f k) (drop (?f k) xs) = take (?f (Suc k)) xs"
    using le by (metis le_add_diff_inverse take_add)
  with Suc show ?case
    by (simp add: subrange_def chunk_last_eq_first_Suc)
qed

lemma chunk_first_mono: "t \<le> t' \<Longrightarrow> chunk_first n cnt t \<le> chunk_first n cnt t'"
  unfolding chunk_first_def by (intro add_mono mult_le_mono1 min.mono) simp_all

lemma chunk_last_le: "0 < cnt \<Longrightarrow> t < cnt \<Longrightarrow> chunk_last n cnt t \<le> n"
  using chunk_first_mono [of "Suc t" cnt n cnt] chunk_first_all [of cnt n]
  by (simp add: chunk_last_eq_first_Suc)

lemma length_subrange_chunk:
  "0 < cnt \<Longrightarrow> t < cnt \<Longrightarrow>
   length (subrange xs (chunk_first (length xs) cnt t) (chunk_last (length xs) cnt t))
     = chunk_last (length xs) cnt t - chunk_first (length xs) cnt t"
  using chunk_last_le [of cnt t "length xs"] by (simp add: subrange_def)

lemma zip_concat_replicate:
  "zip (concat (map f ts)) (concat (map (\<lambda>t. replicate (length (f t)) t) ts))
     = concat (map (\<lambda>t. map (\<lambda>x. (x, t)) (f t)) ts)"
proof (induction ts)
  case Nil
  then show ?case by simp
next
  case (Cons t ts)
  have "zip (f t) (replicate (length (f t)) t) = map (\<lambda>x. (x, t)) (f t)"
    by (induction "f t") (simp_all add: zip_replicate2 )
  with Cons show ?case by simp
qed

lemma floor_div: "nat \<lfloor>real n / real T\<rfloor> = n div T"
  by (simp add: floor_divide_of_nat_eq)

lemma ceil_div:
  assumes "0 < T"
  shows "nat \<lceil>real n / real T\<rceil> = (if n mod T = 0 then n div T else n div T + 1)"
proof -
  define q where "q = n div T"
  define r where "r = n mod T"
  have n: "n = T * q + r" by (simp add: q_def r_def)
  have lt: "r < T" using assms by (simp add: r_def)
  have quot: "real n / real T = real q + real r / real T"
    using assms by (simp add: n field_simps)
  show ?thesis
  proof (cases "r = 0")
    case True
    then have "\<lceil>real n / real T\<rceil> = int q" using quot by simp
    then show ?thesis using True by (simp add: q_def r_def)
  next
    case False
    then have "0 < real r / real T" "real r / real T \<le> 1"
      using lt assms by simp_all
    then have "\<lceil>real n / real T\<rceil> = int q + 1"
      unfolding quot by (intro ceiling_unique) simp_all
    then show ?thesis using False by (simp add: q_def r_def)
  qed
qed

subsection \<open>Views and pieces\<close>

lemma subrange_map: "subrange (map f xs) first lst = map f (subrange xs first lst)"
  by (simp add: subrange_def take_map drop_map)

lemma piecewise_all_view: "piecewise (views (all_view xs))"
  by (simp add: piecewise_def all_view_def)

lemma piecewise_filter_view: "piecewise (views R) \<Longrightarrow> piecewise (views (filter_view pred R))"
  by (simp add: piecewise_def filter_view_def)

lemma piecewise_transform_view: "piecewise (views R) \<Longrightarrow> piecewise (views (transform_view proj R))"
  by (simp add: piecewise_def transform_view_def)

lemma piecewise_elements_view: "piecewise (views R) \<Longrightarrow> piecewise (views (elements_view sel R))"
  by (simp add: piecewise_def elements_view_def)

lemma piecewise_join_view: "piecewise (views R) \<Longrightarrow> piecewise (views (join_view R))"
  by (simp add: piecewise_def join_view_def)

lemma piecewise_Nil: "piecewise v \<Longrightarrow> v [] = []"
proof -
  assume "piecewise v"
  then have "v ([] @ []) = v [] @ v []" unfolding piecewise_def by blast
  then show ?thesis by simp
qed

lemma piecewise_concat: "piecewise v \<Longrightarrow> concat (map v xss) = v (concat xss)"
proof (induction xss)
  case Nil
  then show ?case by (simp add: piecewise_Nil)
next
  case (Cons xs xss)
  then show ?case by (simp add: piecewise_def)
qed

lemma deterministic_for_each_shape:
  "deterministic_for_each T R =
     Par (map (\<lambda>t. Seq (map (\<lambda>x. Call (x, t)) (range_chunk T R t))) [0..<T])"
  by (simp add: deterministic_for_each_def deterministic_for_each_range_unview_def unview_def
      deterministic_for_each_range_def range_chunk_def base_chunk_def)

lemma base_chunk_sizes:
  assumes "0 < T" "t < T"
  shows "length (base_chunk T R t) \<in> {nat \<lfloor>real (length (base R)) / real T\<rfloor>,
                                     nat \<lceil>real (length (base R)) / real T\<rceil>}"
proof -
  let ?n = "length (base R)"
  have "length (base_chunk T R t) = (if t < ?n mod T then ?n div T + 1 else ?n div T)"
    using assms by (simp add: base_chunk_def length_subrange_chunk chunk_size)
  moreover have "t < ?n mod T \<Longrightarrow> ?n mod T \<noteq> 0" by simp
  ultimately show ?thesis
    using assms by (auto simp: floor_div ceil_div)
qed

lemma thread_ids_base_chunk:
  assumes "0 < T"
  shows "thread_ids (length (base R)) T
           = concat (map (\<lambda>t. replicate (length (base_chunk T R t)) t) [0..<T])"
  unfolding thread_ids_def using assms
  by (intro arg_cong [where f = concat] map_cong)
     (simp_all add: base_chunk_def length_subrange_chunk)

text \<open>
  C8. With \<open>T > 0\<close> threads, \<open>deterministic_for_each\<close> forks exactly \<open>T\<close> tasks. The
  blockable base of the range, of size \<open>N\<close>, is cut into \<open>T\<close> contiguous chunks which, put
  one after the other, are the base, and each has \<open>\<lfloor>N/T\<rfloor>\<close> or \<open>\<lceil>N/T\<rceil>\<close> elements. Task \<open>t\<close>
  walks, in order, the views of chunk \<open>t\<close>; these pieces, put one after the other, are the
  elements of the range, and \<open>f\<close> is called on every element once, with the index of the
  task that walks its piece. When the views keep the number of elements (a blockable range
  itself, and \<open>transform\<close> or \<open>elements\<close> views of it), the thread index of every position
  is given by \<open>thread_ids\<close>, which depends on \<open>N\<close> and \<open>T\<close> only.
\<close>

theorem deterministic_for_each_chunks:
  assumes "0 < T" and "piecewise (views R)"
  shows "deterministic_for_each T R =
           Par (map (\<lambda>t. Seq (map (\<lambda>x. Call (x, t)) (range_chunk T R t))) [0..<T])
       \<and> concat (map (base_chunk T R) [0..<T]) = base R
       \<and> (\<forall>t<T. length (base_chunk T R t)
                  \<in> {nat \<lfloor>real (length (base R)) / real T\<rfloor>,
                     nat \<lceil>real (length (base R)) / real T\<rceil>})
       \<and> concat (map (range_chunk T R) [0..<T]) = range_elems R
       \<and> calls (deterministic_for_each T R)
           = zip (range_elems R)
                 (concat (map (\<lambda>t. replicate (length (range_chunk T R t)) t) [0..<T]))
       \<and> ((\<forall>sub. length (views R sub) = length sub) \<longrightarrow>
            calls (deterministic_for_each T R)
              = zip (range_elems R) (thread_ids (length (range_elems R)) T))"
proof -
  have cover: "concat (map (base_chunk T R) [0..<T]) = base R"
    using concat_chunks_take [of T T "base R"] assms(1)
    by (simp add: chunk_first_all base_chunk_def [abs_def])
  have sizes: "\<forall>t<T. length (base_chunk T R t)
                  \<in> {nat \<lfloor>real (length (base R)) / real T\<rfloor>,
                     nat \<lceil>real (length (base R)) / real T\<rceil>}"
    using base_chunk_sizes [OF assms(1)] by blast
  have "concat (map (range_chunk T R) [0..<T]) = concat (map (views R) (map (base_chunk T R) [0..<T]))"
    by (simp add: range_chunk_def [abs_def] comp_def)
  also have "\<dots> = views R (concat (map (base_chunk T R) [0..<T]))"
    by (rule piecewise_concat [OF assms(2)])
  finally have pieces: "concat (map (range_chunk T R) [0..<T]) = range_elems R"
    by (simp add: cover range_elems_def)
  have "calls (deterministic_for_each T R)
          = concat (map (\<lambda>t. map (\<lambda>x. (x, t)) (range_chunk T R t)) [0..<T])"
    unfolding deterministic_for_each_shape by (simp add: comp_def)
  also have "\<dots> = zip (concat (map (range_chunk T R) [0..<T]))
                      (concat (map (\<lambda>t. replicate (length (range_chunk T R t)) t) [0..<T]))"
    by (rule zip_concat_replicate [symmetric])
  finally have cs: "calls (deterministic_for_each T R)
          = zip (range_elems R)
                (concat (map (\<lambda>t. replicate (length (range_chunk T R t)) t) [0..<T]))"
    unfolding pieces .
  have ids: "calls (deterministic_for_each T R)
              = zip (range_elems R) (thread_ids (length (range_elems R)) T)"
    if keep: "\<forall>sub. length (views R sub) = length sub"
  proof -
    have "length (range_elems R) = length (base R)" using keep by (simp add: range_elems_def)
    moreover have "\<And>t. length (range_chunk T R t) = length (base_chunk T R t)"
      using keep by (simp add: range_chunk_def)
    ultimately show ?thesis
      using cs by (simp add: thread_ids_base_chunk [OF assms(1)])
  qed
  from deterministic_for_each_shape cover sizes pieces cs ids show ?thesis by blast
qed

theorem deterministic_for_each_chunks_witness:
  "(0::nat) < 4 \<and>
   piecewise (views (transform_view (\<lambda>x. 2 * x) (all_view [0, 1, 2, 3, 4, 5, 6, 7, 8, 9 :: int]))) \<and>
   calls (deterministic_for_each 4
            (transform_view (\<lambda>x. 2 * x) (all_view [0, 1, 2, 3, 4, 5, 6, 7, 8, 9 :: int])))
     = zip [0, 2, 4, 6, 8, 10, 12, 14, 16, 18] [0, 0, 0, 1, 1, 1, 2, 2, 3, 3]"
proof -
  let ?R = "transform_view (\<lambda>x. 2 * x) (all_view [0, 1, 2, 3, 4, 5, 6, 7, 8, 9 :: int])"
  have h: "(0::nat) < 4" by simp
  have p: "piecewise (views ?R)"
    by (rule piecewise_transform_view [OF piecewise_all_view])
  have keep: "\<forall>sub. length (views ?R sub) = length sub"
    by (simp add: transform_view_def all_view_def)
  have c: "calls (deterministic_for_each 4 ?R)
             = zip (range_elems ?R) (thread_ids (length (range_elems ?R)) 4)"
    using deterministic_for_each_chunks [OF h p] keep by blast
  have e: "range_elems ?R = [0, 2, 4, 6, 8, 10, 12, 14, 16, 18]"
    by (simp add: range_elems_def transform_view_def all_view_def)
  have l: "length [0, 2, 4, 6, 8, 10, 12, 14, 16, 18 :: int] = 10" by simp
  have ids: "thread_ids 10 4 = [0, 0, 0, 1, 1, 1, 2, 2, 3, 3]" by code_simp
  from c have "calls (deterministic_for_each 4 ?R)
                 = zip [0, 2, 4, 6, 8, 10, 12, 14, 16, 18] [0, 0, 0, 1, 1, 1, 2, 2, 3, 3]"
    unfolding e l ids .
  with h p show ?thesis by blast
qed

text \<open>
  C8 as stated fails for a \<open>filter\<close> view. Of the ten numbers from 0 to 9 keep those below
  5, or those from 5 on: either range has \<open>N = 5\<close> elements, and with \<open>T = 4\<close> threads
  \<open>\<lfloor>N/T\<rfloor> = 1\<close> and \<open>\<lceil>N/T\<rceil> = 2\<close>. The first range is walked in pieces of 3, 2, 0 and 0
  elements, the second in pieces of 0, 1, 2 and 2 elements, and the thread index of the
  element at position 0 is 0 in the first range and 1 in the second.
\<close>

theorem deterministic_for_each_filter_counterexample:
  "range_elems (filter_view (\<lambda>i. i < 5) (all_view [0, 1, 2, 3, 4, 5, 6, 7, 8, 9 :: int]))
     = [0, 1, 2, 3, 4] \<and>
   range_elems (filter_view (\<lambda>i. 5 \<le> i) (all_view [0, 1, 2, 3, 4, 5, 6, 7, 8, 9 :: int]))
     = [5, 6, 7, 8, 9] \<and>
   nat \<lfloor>real 5 / real 4\<rfloor> = 1 \<and> nat \<lceil>real 5 / real 4\<rceil> = 2 \<and>
   map (\<lambda>t. length (range_chunk 4
          (filter_view (\<lambda>i. i < 5) (all_view [0, 1, 2, 3, 4, 5, 6, 7, 8, 9 :: int])) t))
       [0, 1, 2, 3] = [3, 2, 0, 0] \<and>
   calls (deterministic_for_each 4
            (filter_view (\<lambda>i. i < 5) (all_view [0, 1, 2, 3, 4, 5, 6, 7, 8, 9 :: int])))
     = [(0, 0), (1, 0), (2, 0), (3, 1), (4, 1)] \<and>
   calls (deterministic_for_each 4
            (filter_view (\<lambda>i. 5 \<le> i) (all_view [0, 1, 2, 3, 4, 5, 6, 7, 8, 9 :: int])))
     = [(5, 1), (6, 2), (7, 2), (8, 3), (9, 3)]"
proof -
  let ?lo = "filter_view (\<lambda>i. i < 5) (all_view [0, 1, 2, 3, 4, 5, 6, 7, 8, 9 :: int])"
  let ?hi = "filter_view (\<lambda>i. 5 \<le> i) (all_view [0, 1, 2, 3, 4, 5, 6, 7, 8, 9 :: int])"
  have f: "nat \<lfloor>real 5 / real 4\<rfloor> = 1" "nat \<lceil>real 5 / real 4\<rceil> = 2"
    by (simp_all add: floor_div ceil_div)
  have e: "range_elems ?lo = [0, 1, 2, 3, 4]" "range_elems ?hi = [5, 6, 7, 8, 9]"
    by (simp_all add: range_elems_def filter_view_def all_view_def)
  have l: "map (\<lambda>t. length (range_chunk 4 ?lo t)) [0, 1, 2, 3] = [3, 2, 0, 0]"
    by code_simp
  have c1: "calls (deterministic_for_each 4 ?lo) = [(0, 0), (1, 0), (2, 0), (3, 1), (4, 1)]"
    by code_simp
  have c2: "calls (deterministic_for_each 4 ?hi) = [(5, 1), (6, 2), (7, 2), (8, 3), (9, 3)]"
    by code_simp
  from f e l c1 c2 show ?thesis by (intro conjI)
qed


subsection \<open>The schedule of the block loop\<close>

lemma set_cross:
  "set (cross cs) = {(x, y). \<exists>i j. i < length cs \<and> j < length cs \<and> i \<noteq> j \<and> x \<in> set (cs ! i) \<and> y \<in> set (cs ! j)}"
proof -
  have "\<And>a b. (a, b) \<in> set (cross cs) \<longleftrightarrow>
     (\<exists>i j. i < length cs \<and> j < length cs \<and> i \<noteq> j \<and> a \<in> set (cs ! i) \<and> b \<in> set (cs ! j))"
    unfolding cross_def by (simp split: if_splits) (auto simp: Bex_def)
  then show ?thesis by auto
qed

lemma overlap_inner: "overlap (ranges_for_each inner Call) = []"
  by (simp add: ranges_for_each_def comp_def)

lemma calls_inner: "calls (ranges_for_each inner Call) = inner"
  by (simp add: ranges_for_each_def comp_def)

lemma overlap_chunk:
  "set (overlap (for_each c (\<lambda>inner. ranges_for_each inner Call))) = set (cross c)"
  by (simp add: for_each_def comp_def overlap_inner calls_inner)

lemma overlap_block_for_each:
  "set (overlap (block_for_each T xss)) = (\<Union>c \<in> set (chunk T xss). set (cross c))"
  by (simp add: block_for_each_def ranges_for_each_def [of "chunk T xss"] comp_def overlap_chunk)


lemma chunk_Nil: "chunk T [] = []"
  by (simp add: chunk.simps)

lemma chunk_step: "0 < T \<Longrightarrow> xs \<noteq> [] \<Longrightarrow> chunk T xs = take T xs # chunk T (drop T xs)"
  by (subst chunk.simps) simp

lemma concat_map_concat': "concat (map concat xsss) = concat (concat xsss)"
  by (induction xsss) simp_all

lemma concat_chunk: "0 < T \<Longrightarrow> concat (chunk T xs) = xs"
proof (induction T xs rule: chunk.induct)
  case (1 n xs)
  show ?case
  proof (cases "xs = []")
    case True
    then show ?thesis by (simp add: chunk_Nil)
  next
    case False
    with 1 show ?thesis by (simp add: chunk_step)
  qed
qed

lemma chunk_pairs:
  assumes "0 < T"
  shows "(x, y) \<in> (\<Union>c \<in> set (chunk T xss). set (cross c)) \<longleftrightarrow>
         (\<exists>i j. i < length xss \<and> j < length xss \<and> i \<noteq> j \<and> i div T = j div T
                \<and> x \<in> set (xss ! i) \<and> y \<in> set (xss ! j))"
  using assms
proof (induction T xss rule: chunk.induct)
  case (1 n xs)
  show ?case
  proof (cases "xs = []")
    case True
    then show ?thesis by (simp add: chunk_Nil)
  next
    case False
    let ?R = "\<lambda>zs i j. i < length zs \<and> j < length zs \<and> i \<noteq> j \<and> i div n = j div n
                \<and> x \<in> set (zs ! i) \<and> y \<in> set (zs ! j)"
    have n: "0 < n" by fact
    have IH: "(x, y) \<in> (\<Union>c \<in> set (chunk n (drop n xs)). set (cross c)) \<longleftrightarrow>
              (\<exists>i j. ?R (drop n xs) i j)"
      using 1 False by simp
    have head: "(x, y) \<in> set (cross (take n xs)) \<longleftrightarrow>
                (\<exists>i j. i < n \<and> j < n \<and> ?R xs i j)"
    proof
      assume "(x, y) \<in> set (cross (take n xs))"
      then obtain i j where "i < length (take n xs)" "j < length (take n xs)" "i \<noteq> j"
          "x \<in> set (take n xs ! i)" "y \<in> set (take n xs ! j)"
        unfolding set_cross by blast
      then have "i < n \<and> j < n \<and> ?R xs i j" by simp
      then show "\<exists>i j. i < n \<and> j < n \<and> ?R xs i j" by blast
    next
      assume "\<exists>i j. i < n \<and> j < n \<and> ?R xs i j"
      then obtain i j where "i < n" "j < n" "?R xs i j" by blast
      then have "i < length (take n xs) \<and> j < length (take n xs) \<and> i \<noteq> j \<and>
          x \<in> set (take n xs ! i) \<and> y \<in> set (take n xs ! j)" by simp
      then show "(x, y) \<in> set (cross (take n xs))" unfolding set_cross by blast
    qed
    have tail: "(\<exists>i j. ?R (drop n xs) i j) \<longleftrightarrow> (\<exists>i j. n \<le> i \<and> n \<le> j \<and> ?R xs i j)"
    proof
      assume "\<exists>i j. ?R (drop n xs) i j"
      then obtain i j where r: "?R (drop n xs) i j" by blast
      then have "?R xs (n + i) (n + j)" using n by (auto simp: add.commute)
      then show "\<exists>i j. n \<le> i \<and> n \<le> j \<and> ?R xs i j"
        by (metis le_add1)
    next
      assume "\<exists>i j. n \<le> i \<and> n \<le> j \<and> ?R xs i j"
      then obtain i j where ij: "n \<le> i" "n \<le> j" and r: "?R xs i j" by blast
      have "(i - n) div n = (j - n) div n"
        using ij r n le_div_geq [of n i] le_div_geq [of n j] by simp
      then have "?R (drop n xs) (i - n) (j - n)" using ij r by auto
      then show "\<exists>i j. ?R (drop n xs) i j" by blast
    qed
    have split: "(\<exists>i j. ?R xs i j) \<longleftrightarrow>
        (\<exists>i j. i < n \<and> j < n \<and> ?R xs i j) \<or> (\<exists>i j. n \<le> i \<and> n \<le> j \<and> ?R xs i j)"
    proof
      assume "\<exists>i j. ?R xs i j"
      then obtain i j where r: "?R xs i j" by blast
      show "(\<exists>i j. i < n \<and> j < n \<and> ?R xs i j) \<or> (\<exists>i j. n \<le> i \<and> n \<le> j \<and> ?R xs i j)"
      proof (cases "i < n")
        case True
        then have "j div n = 0" using r by simp
        then have "j < n" using n by (simp add: div_eq_0_iff)
        with True r show ?thesis by blast
      next
        case False
        then have "0 < i div n" using n by (simp add: div_greater_zero_iff)
        then have "0 < j div n" using r by simp
        then have "n \<le> j" using n by (simp add: div_greater_zero_iff)
        with False r show ?thesis by (metis not_less)
      qed
    qed blast
    have "chunk n xs = take n xs # chunk n (drop n xs)"
      using n False by (rule chunk_step)
    then have "(x, y) \<in> (\<Union>c \<in> set (chunk n xs). set (cross c)) \<longleftrightarrow>
        (x, y) \<in> set (cross (take n xs)) \<or> (x, y) \<in> (\<Union>c \<in> set (chunk n (drop n xs)). set (cross c))"
      by simp
    then show ?thesis unfolding head IH tail split .
  qed
qed

text \<open>
  C5, as the code has it. With \<open>T > 0\<close> threads, \<open>block_for_each\<close> calls the body once on every
  inner element, and two calls may overlap in time exactly when their elements belong to two
  different outer elements of the same chunk of \<open>T\<close> consecutive outer elements (positions
  \<open>i \<noteq> j\<close> with \<open>i div T = j div T\<close>). So the chunks run one after the other, the
  outer elements of a chunk run in parallel, and the inner elements of one outer element run
  one after the other.
\<close>

theorem block_for_each_schedule:
  assumes "0 < T"
  shows "calls (block_for_each T xss) = concat xss \<and>
         (\<forall>x y. (x, y) \<in> set (overlap (block_for_each T xss)) \<longleftrightarrow>
            (\<exists>i j. i < length xss \<and> j < length xss \<and> i \<noteq> j \<and> i div T = j div T
                   \<and> x \<in> set (xss ! i) \<and> y \<in> set (xss ! j)))"
proof -
  have "calls (block_for_each T xss) = concat (concat (chunk T xss))"
    by (simp add: block_for_each_def ranges_for_each_def [of "chunk T xss"] for_each_def comp_def
        calls_inner concat_map_concat')
  then have "calls (block_for_each T xss) = concat xss"
    using assms by (simp add: concat_chunk)
  moreover have "(x, y) \<in> set (overlap (block_for_each T xss)) \<longleftrightarrow>
            (\<exists>i j. i < length xss \<and> j < length xss \<and> i \<noteq> j \<and> i div T = j div T
                   \<and> x \<in> set (xss ! i) \<and> y \<in> set (xss ! j))" for x y
    unfolding overlap_block_for_each by (rule chunk_pairs [OF assms])
  ultimately show ?thesis by blast
qed

theorem block_for_each_schedule_witness:
  "(0::nat) < 4 \<and>
   calls (block_for_each 4 [[0, 1], [2, 3], [4, 5], [6, 7], [8, 9 :: nat]]) = [0, 1, 2, 3, 4, 5, 6, 7, 8, 9] \<and>
   (3, 6) \<in> set (overlap (block_for_each 4 [[0, 1], [2, 3], [4, 5], [6, 7], [8, 9 :: nat]])) \<and>
   (7, 8) \<notin> set (overlap (block_for_each 4 [[0, 1], [2, 3], [4, 5], [6, 7], [8, 9 :: nat]]))"
proof -
  let ?d = "[[0, 1], [2, 3], [4, 5], [6, 7], [8, 9 :: nat]]"
  have h: "(0::nat) < 4" by simp
  note t = block_for_each_schedule [OF h, of ?d]
  have c: "calls (block_for_each 4 ?d) = [0, 1, 2, 3, 4, 5, 6, 7, 8, 9]"
    using t by simp
  have "(3, 6) \<in> set (overlap (block_for_each 4 ?d))" by code_simp
  moreover have "(7, 8) \<notin> set (overlap (block_for_each 4 ?d))" by code_simp
  ultimately show ?thesis using h c by blast
qed

text \<open>
  C5 as stated fails: with four threads and the outer elements \<open>[0, 1]\<close> and \<open>[2, 3]\<close>, the
  calls on \<open>1\<close> and \<open>2\<close> (two outer elements) may overlap, and the calls on \<open>0\<close> and \<open>1\<close> (one
  outer element) may not.
\<close>

theorem block_for_each_counterexample:
  "(1, 2) \<in> set (overlap (block_for_each 4 [[0, 1], [2, 3 :: nat]])) \<and>
   (0, 1) \<notin> set (overlap (block_for_each 4 [[0, 1], [2, 3 :: nat]]))"
  by code_simp


section \<open>Properties of the coarsening functions\<close>

subsection \<open>The order in which GEM visits the edges\<close>

lemma path3_wedges: "wedges path3 = [(0, 1, 1), (1, 2, 1)]"
  by code_simp

lemma path3_weight: "weight path3 0 = 1" "weight path3 (Suc 0) = 5" "weight path3 2 = 5"
  by (simp_all add: weight_def path3_def append_node_def clear_def)

lemma path3_edges: "gem_fine_edges h path3 = [(1, 2, 1), (0, 1, 1)]"
  unfolding gem_fine_edges_def path3_wedges
  by (simp add: sort_by_def gem_key_def path3_weight)

lemma path3_nodes: "num_nodes path3 = 3" "nodes path3 = [0, 1, 2]"
  by (simp_all add: nodes_def num_nodes_def path3_def append_node_def clear_def upt_rec)

text \<open>
  C6. On the path with node weights 1, 5, 5 and equal edge weights, whatever the hash, GEM
  visits the edge between the two heavy nodes first (the smaller node weight is sorted
  descending, like the edge weight), merges them, and leaves the light node alone.
\<close>

theorem gem_visits_heavier_nodes_first:
  "gem_fine_edges h path3 = [(1, 2, 1), (0, 1, 1)] \<and>
   fine_to_coarse (gem_matching h path3) = [Some 1, Some 0, Some 0] \<and>
   coarse_to_fine (gem_matching h path3) = [1, 2, 0]"
  unfolding gem_matching_def path3_edges path3_nodes
  by (simp add: matching_init_def numeral_3_eq_3 numeral_2_eq_2)

subsection \<open>The coarse nodes are the runs of the coarse-to-fine list\<close>

lemma takeWhile_hd_fails: "ys = [] \<or> \<not> P (hd ys) \<Longrightarrow> takeWhile P ys = []"
  by (cases ys) auto

lemma dropWhile_hd_fails: "ys = [] \<or> \<not> P (hd ys) \<Longrightarrow> dropWhile P ys = ys"
  by (cases ys) auto

lemma equality_ranges_concat:
  assumes "\<forall>g \<in> set gs. g \<noteq> []"
    and "\<forall>k < length gs. \<forall>i \<in> set (gs ! k). proj i = key k"
    and "\<forall>k < length gs. \<forall>k' < length gs. key k = key k' \<longrightarrow> k = k'"
  shows "equality_ranges proj (concat gs) = gs"
  using assms
proof (induction gs arbitrary: key)
  case Nil
  then show ?case by simp
next
  case (Cons g gs)
  from Cons.prems(1) obtain x xs where g: "g = x # xs" by (cases g) auto
  have key0: "\<forall>i \<in> set g. proj i = key 0" using Cons.prems(2) by fastforce
  then have px: "proj x = key 0" and pxs: "\<forall>y \<in> set xs. proj y = proj x" by (simp_all add: g)
  have keyS: "\<forall>k < length gs. \<forall>i \<in> set (gs ! k). proj i = key (Suc k)"
    using Cons.prems(2) by fastforce
  have inj: "\<forall>k < length gs. \<forall>k' < length gs. key (Suc k) = key (Suc k') \<longrightarrow> k = k'"
    using Cons.prems(3) by fastforce
  have ne: "\<forall>g \<in> set gs. g \<noteq> []" using Cons.prems(1) by simp
  have IH: "equality_ranges proj (concat gs) = gs"
    using Cons.IH [OF ne keyS inj] .
  have hd_diff: "concat gs = [] \<or> proj (hd (concat gs)) \<noteq> proj x"
  proof (cases gs)
    case Nil
    then show ?thesis by simp
  next
    case (Cons g' gs')
    then have "g' \<noteq> []" using ne by simp
    then have "hd (concat gs) = hd g'" "hd g' \<in> set (gs ! 0)" using Cons by simp_all
    then have "proj (hd (concat gs)) = key (Suc 0)" using keyS Cons by fastforce
    moreover have "key (Suc 0) \<noteq> key 0" using Cons.prems(3) Cons by fastforce
    ultimately show ?thesis using px by simp
  qed
  have tw: "takeWhile (\<lambda>y. proj y = proj x) (concat gs) = []"
    using hd_diff by (intro takeWhile_hd_fails) blast
  have dw: "dropWhile (\<lambda>y. proj y = proj x) (concat gs) = concat gs"
    using hd_diff by (intro dropWhile_hd_fails) blast
  have "takeWhile (\<lambda>y. proj y = proj x) (xs @ concat gs) = xs"
    using pxs tw by (simp add: takeWhile_append2)
  moreover have "dropWhile (\<lambda>y. proj y = proj x) (xs @ concat gs) = concat gs"
    using pxs dw by (simp add: dropWhile_append2)
  ultimately show ?case using IH by (simp add: g)
qed

lemma num_nodes_append_node: "num_nodes (append_node w nb g) = num_nodes g + 1"
  by (simp add: num_nodes_def append_node_def)

lemma num_nodes_foldl_append:
  "num_nodes (foldl (\<lambda>cg x. case F x of (w, nb) \<Rightarrow> append_node w nb cg) g0 xs)
     = num_nodes g0 + length xs"
  by (induction xs arbitrary: g0) (simp_all add: num_nodes_append_node split: prod.splits)

lemma num_nodes_build_coarse_graph:
  "num_nodes (build_coarse_graph g c2f f2c) = length (equality_ranges (\<lambda>fn. f2c ! fn) c2f)"
  unfolding build_coarse_graph_def
  by (simp add: num_nodes_foldl_append) (simp add: num_nodes_def clear_def)

subsection \<open>Steps that keep the invariant\<close>

lemma grouped_init: "grouped n [] (matching_init n)"
  by (simp add: grouped_def matching_init_def)

lemma grouped_new_group:
  assumes g: "grouped n gs m"
    and new: "new \<noteq> []" "\<forall>a \<in> set new. a < n \<and> fine_to_coarse m ! a = None"
    and c2f: "coarse_to_fine m' = coarse_to_fine m @ new"
    and len: "length (fine_to_coarse m') = n"
    and upd: "\<forall>a \<in> set new. fine_to_coarse m' ! a = Some (length gs)"
    and same: "\<forall>i < n. i \<notin> set new \<longrightarrow> fine_to_coarse m' ! i = fine_to_coarse m ! i"
  shows "grouped n (gs @ [new]) m'"
proof -
  have old: "\<forall>k < length gs. \<forall>i \<in> set (gs ! k). i < n \<and> fine_to_coarse m ! i = Some k"
    using g by (simp add: grouped_def)
  have keys: "i < n \<and> fine_to_coarse m' ! i = Some k"
    if "k < length (gs @ [new])" "i \<in> set ((gs @ [new]) ! k)" for k i
  proof (cases "k < length gs")
    case True
    then have i: "i < n" "fine_to_coarse m ! i = Some k" using old that by (auto simp: nth_append)
    then have "i \<notin> set new" using new by auto
    then show ?thesis using i same by simp
  next
    case False
    then have "k = length gs" using that by simp
    then show ?thesis using that new upd by (auto simp: nth_append)
  qed
  have cover: "i \<in> set (coarse_to_fine m')" if "i < n" "fine_to_coarse m' ! i \<noteq> None" for i
  proof (cases "i \<in> set new")
    case True
    then show ?thesis by (simp add: c2f)
  next
    case False
    then have "fine_to_coarse m ! i \<noteq> None" using that same by simp
    moreover have "\<forall>i < n. fine_to_coarse m ! i \<noteq> None \<longrightarrow> i \<in> set (coarse_to_fine m)"
      using g unfolding grouped_def by blast
    ultimately have "i \<in> set (coarse_to_fine m)" using that by blast
    then show ?thesis by (simp add: c2f)
  qed
  have "coarse_to_fine m' = concat (gs @ [new])" using g c2f by (simp add: grouped_def)
  moreover have "\<forall>g \<in> set (gs @ [new]). g \<noteq> []" using g new by (simp add: grouped_def)
  ultimately show ?thesis using len keys cover unfolding grouped_def by blast
qed

lemma grouped_extend_last:
  assumes g: "grouped n gs m"
    and ne: "gs \<noteq> []"
    and a: "a < n" "fine_to_coarse m ! a = None"
    and c2f: "coarse_to_fine m' = coarse_to_fine m @ [a]"
    and f2c: "fine_to_coarse m' = (fine_to_coarse m)[a := Some (length gs - 1)]"
  shows "grouped n (butlast gs @ [last gs @ [a]]) m'"
proof -
  let ?gs' = "butlast gs @ [last gs @ [a]]"
  have len: "length (fine_to_coarse m) = n" using g by (simp add: grouped_def)
  have old: "\<forall>k < length gs. \<forall>i \<in> set (gs ! k). i < n \<and> fine_to_coarse m ! i = Some k"
    using g by (simp add: grouped_def)
  have lgs: "length ?gs' = length gs" using ne by simp
  have keys: "i < n \<and> fine_to_coarse m' ! i = Some k"
    if "k < length ?gs'" "i \<in> set (?gs' ! k)" for k i
  proof (cases "k < length gs - 1")
    case True
    then have "?gs' ! k = gs ! k" "k < length gs" by (simp_all add: nth_append nth_butlast)
    then have "i \<in> set (gs ! k)" using that by simp
    then have i: "i < n" "fine_to_coarse m ! i = Some k" using old \<open>k < length gs\<close> by blast+
    then have "i \<noteq> a" using a by auto
    then show ?thesis using i f2c by simp
  next
    case False
    then have k: "k = length gs - 1" using that lgs by simp
    then have "?gs' ! k = last gs @ [a]" by (simp add: nth_append)
    then have "i \<in> set (last gs) \<or> i = a" using that by auto
    then show ?thesis
    proof
      assume "i \<in> set (last gs)"
      then have "i \<in> set (gs ! k)" using ne k by (simp add: last_conv_nth)
      moreover have "k < length gs" using k ne by simp
      ultimately have i: "i < n" "fine_to_coarse m ! i = Some k" using old by blast+
      then have "i \<noteq> a" using a by auto
      then show ?thesis using i f2c by simp
    next
      assume "i = a"
      then show ?thesis using a f2c len k by simp
    qed
  qed
  have cover: "i \<in> set (coarse_to_fine m')" if "i < n" "fine_to_coarse m' ! i \<noteq> None" for i
  proof (cases "i = a")
    case True
    then show ?thesis by (simp add: c2f)
  next
    case False
    then have "fine_to_coarse m ! i \<noteq> None" using that f2c by simp
    moreover have "\<forall>i < n. fine_to_coarse m ! i \<noteq> None \<longrightarrow> i \<in> set (coarse_to_fine m)"
      using g unfolding grouped_def by blast
    ultimately have "i \<in> set (coarse_to_fine m)" using that by blast
    then show ?thesis by (simp add: c2f)
  qed
  have "concat gs = concat (butlast gs) @ last gs"
    using ne by (metis append_butlast_last_id concat_append concat.simps(1,2) append_Nil2)
  then have "coarse_to_fine m' = concat ?gs'" using g c2f by (simp add: grouped_def)
  moreover have "\<forall>g \<in> set ?gs'. g \<noteq> []"
    using g by (auto simp: grouped_def dest: in_set_butlastD)
  moreover have "length (fine_to_coarse m') = n" using len f2c by simp
  ultimately show ?thesis using keys cover unfolding grouped_def by blast
qed

subsection \<open>The loops of GEM\<close>

lemma gem_merge_inv:
  assumes "\<forall>e \<in> set es. fst e < n \<and> fst (snd e) < n"
    and "\<exists>gs. grouped n gs m \<and> length gs = coarse_node m"
  shows "\<exists>gs. grouped n gs (gem_merge es m) \<and> length gs = coarse_node (gem_merge es m)"
  using assms
proof (induction es arbitrary: m)
  case Nil
  then show ?case by simp
next
  case (Cons e es)
  obtain a b w where e: "e = (a, b, w)" by (cases e) auto
  have ab: "a < n" "b < n" using Cons.prems(1) e by auto
  have rest: "\<forall>e \<in> set es. fst e < n \<and> fst (snd e) < n" using Cons.prems(1) by simp
  show ?case
  proof (cases "fine_to_coarse m ! a = None \<and> fine_to_coarse m ! b = None")
    case False
    then have "gem_merge (e # es) m = gem_merge es m" by (auto simp: e)
    then show ?thesis using Cons.IH [OF rest Cons.prems(2)] by simp
  next
    case True
    define m' where "m' = \<lparr>coarse_node = coarse_node m + 1,
              coarse_to_fine = coarse_to_fine m @ [a, b],
              fine_to_coarse = (fine_to_coarse m)[a := Some (coarse_node m), b := Some (coarse_node m)]\<rparr>"
    from Cons.prems(2) obtain gs where gs: "grouped n gs m" "length gs = coarse_node m" by blast
    then have len: "length (fine_to_coarse m) = n" by (simp add: grouped_def)
    have "grouped n (gs @ [[a, b]]) m'"
    proof (rule grouped_new_group [OF gs(1)])
      show "[a, b] \<noteq> []" by simp
      show "\<forall>x \<in> set [a, b]. x < n \<and> fine_to_coarse m ! x = None" using ab True by simp
      show "coarse_to_fine m' = coarse_to_fine m @ [a, b]" by (simp add: m'_def)
      show "length (fine_to_coarse m') = n" using len by (simp add: m'_def)
      show "\<forall>x \<in> set [a, b]. fine_to_coarse m' ! x = Some (length gs)"
        using ab len gs(2) by (simp add: m'_def nth_list_update)
      show "\<forall>i < n. i \<notin> set [a, b] \<longrightarrow> fine_to_coarse m' ! i = fine_to_coarse m ! i"
        by (simp add: m'_def)
    qed
    moreover have "length (gs @ [[a, b]]) = coarse_node m'" using gs(2) by (simp add: m'_def)
    ultimately have "\<exists>gs. grouped n gs m' \<and> length gs = coarse_node m'" by blast
    from Cons.IH [OF rest this] have "\<exists>gs. grouped n gs (gem_merge es m') \<and> length gs = coarse_node (gem_merge es m')" .
    moreover have "gem_merge (e # es) m = gem_merge es m'" using True by (simp add: e m'_def)
    ultimately show ?thesis by simp
  qed
qed

lemma gem_rest_inv:
  assumes "\<forall>a \<in> set ns. a < n"
    and "\<exists>gs. grouped n gs m \<and> length gs = coarse_node m"
  shows "(\<exists>gs. grouped n gs (gem_rest ns m) \<and> length gs = coarse_node (gem_rest ns m)) \<and>
         (\<forall>i < n. fine_to_coarse m ! i \<noteq> None \<or> i \<in> set ns \<longrightarrow> fine_to_coarse (gem_rest ns m) ! i \<noteq> None)"
  using assms
proof (induction ns arbitrary: m)
  case Nil
  then show ?case by simp
next
  case (Cons a ns)
  have a: "a < n" using Cons.prems(1) by simp
  have rest: "\<forall>a \<in> set ns. a < n" using Cons.prems(1) by simp
  show ?case
  proof (cases "fine_to_coarse m ! a = None")
    case False
    then have "gem_rest (a # ns) m = gem_rest ns m" by simp
    then show ?thesis using Cons.IH [OF rest Cons.prems(2)] False by auto
  next
    case True
    define m' where "m' = \<lparr>coarse_node = coarse_node m + 1,
              coarse_to_fine = coarse_to_fine m @ [a],
              fine_to_coarse = (fine_to_coarse m)[a := Some (coarse_node m)]\<rparr>"
    from Cons.prems(2) obtain gs where gs: "grouped n gs m" "length gs = coarse_node m" by blast
    then have len: "length (fine_to_coarse m) = n" by (simp add: grouped_def)
    have "grouped n (gs @ [[a]]) m'"
    proof (rule grouped_new_group [OF gs(1)])
      show "[a] \<noteq> []" by simp
      show "\<forall>x \<in> set [a]. x < n \<and> fine_to_coarse m ! x = None" using a True by simp
      show "coarse_to_fine m' = coarse_to_fine m @ [a]" by (simp add: m'_def)
      show "length (fine_to_coarse m') = n" using len by (simp add: m'_def)
      show "\<forall>x \<in> set [a]. fine_to_coarse m' ! x = Some (length gs)"
        using a len gs(2) by (simp add: m'_def)
      show "\<forall>i < n. i \<notin> set [a] \<longrightarrow> fine_to_coarse m' ! i = fine_to_coarse m ! i"
        by (simp add: m'_def)
    qed
    moreover have "length (gs @ [[a]]) = coarse_node m'" using gs(2) by (simp add: m'_def)
    ultimately have inv': "\<exists>gs. grouped n gs m' \<and> length gs = coarse_node m'" by blast
    have mono: "\<forall>i < n. fine_to_coarse m ! i \<noteq> None \<or> i = a \<longrightarrow> fine_to_coarse m' ! i \<noteq> None"
    proof (intro allI impI)
      fix i assume "i < n" "fine_to_coarse m ! i \<noteq> None \<or> i = a"
      then show "fine_to_coarse m' ! i \<noteq> None"
        using len by (cases "i = a") (simp_all add: m'_def)
    qed
    have step: "gem_rest (a # ns) m = gem_rest ns m'" using True by (simp add: m'_def)
    show ?thesis unfolding step using Cons.IH [OF rest inv'] mono by auto
  qed
qed

subsection \<open>From the invariant to the mapping\<close>

lemma grouped_member:
  assumes g: "grouped n gs m" and i: "i < n" "fine_to_coarse m ! i \<noteq> None"
  shows "\<exists>k < length gs. i \<in> set (gs ! k) \<and> fine_to_coarse m ! i = Some k"
proof -
  have "i \<in> set (concat gs)" using g i unfolding grouped_def by metis
  then obtain x where "x \<in> set gs" "i \<in> set x" by auto
  then obtain k where k: "k < length gs" "i \<in> set (gs ! k)" by (metis in_set_conv_nth)
  moreover have "\<forall>k < length gs. \<forall>i \<in> set (gs ! k). i < n \<and> fine_to_coarse m ! i = Some k"
    using g unfolding grouped_def by blast
  ultimately show ?thesis by blast
qed

lemma grouped_ids:
  assumes g: "grouped n gs m" and all: "\<forall>i < n. fine_to_coarse m ! i \<noteq> None"
  shows "set (map node_id (fine_to_coarse m)) = {..<length gs}"
proof -
  have len: "length (fine_to_coarse m) = n" using g by (simp add: grouped_def)
  have keys: "\<forall>k < length gs. \<forall>i \<in> set (gs ! k). i < n \<and> fine_to_coarse m ! i = Some k"
    using g unfolding grouped_def by blast
  have ne: "\<forall>x \<in> set gs. x \<noteq> []" using g unfolding grouped_def by blast
  show ?thesis
  proof (intro equalityI subsetI)
    fix c assume "c \<in> set (map node_id (fine_to_coarse m))"
    then obtain i where i: "i < n" "c = node_id (fine_to_coarse m ! i)"
      using len by (auto simp: in_set_conv_nth)
    then obtain k where "k < length gs" "fine_to_coarse m ! i = Some k"
      using grouped_member [OF g, of i] all by blast
    then show "c \<in> {..<length gs}" using i by simp
  next
    fix c assume "c \<in> {..<length gs}"
    then have c: "c < length gs" by simp
    then have "gs ! c \<noteq> []" using ne by simp
    then obtain i where "i \<in> set (gs ! c)" by (cases "gs ! c") auto
    then have "i < n" "fine_to_coarse m ! i = Some c" using keys c by blast+
    then have "node_id (fine_to_coarse m ! i) = c" "fine_to_coarse m ! i \<in> set (fine_to_coarse m)"
      using len nth_mem [of i "fine_to_coarse m"] by simp_all
    then show "c \<in> set (map node_id (fine_to_coarse m))" by force
  qed
qed

lemma Max_lessThan_nat: "0 < L \<Longrightarrow> Max {..<L::nat} + 1 = L"
proof -
  assume "0 < L"
  then have "Max {..<L} = L - 1" by (intro Max_eqI) auto
  then show ?thesis using \<open>0 < L\<close> by simp
qed

lemma grouped_coarse_map_ok:
  assumes g: "grouped n gs m" and all: "\<forall>i < n. fine_to_coarse m ! i \<noteq> None"
    and n: "n = num_nodes fine_graph"
  shows "coarse_map_ok fine_graph
           (build_coarse_graph fine_graph (coarse_to_fine m) (fine_to_coarse m),
            coarse_to_fine m, fine_to_coarse m)"
proof -
  let ?f2c = "fine_to_coarse m" and ?c2f = "coarse_to_fine m"
  have len: "length ?f2c = n" using g by (simp add: grouped_def)
  have keys: "\<forall>k < length gs. \<forall>i \<in> set (gs ! k). (\<lambda>fn. ?f2c ! fn) i = Some k"
    using g unfolding grouped_def by blast
  have ne: "\<forall>x \<in> set gs. x \<noteq> []" using g unfolding grouped_def by blast
  have "equality_ranges (\<lambda>fn. ?f2c ! fn) (concat gs) = gs"
    by (rule equality_ranges_concat [OF ne keys]) simp
  then have er: "equality_ranges (\<lambda>fn. ?f2c ! fn) ?c2f = gs" using g by (simp add: grouped_def)
  have nn: "num_nodes (build_coarse_graph fine_graph ?c2f ?f2c) = length gs"
    by (simp add: num_nodes_build_coarse_graph er)
  have assigned: "list_all (\<lambda>c. c \<noteq> None) ?f2c"
    using all len by (simp add: list_all_length)
  have mx: "Max (set (map node_id ?f2c)) + 1 = length gs" if "0 < n"
  proof -
    have "?f2c \<noteq> []" using that len by auto
    then have "set (map node_id ?f2c) \<noteq> {}" by simp
    then have "0 < length gs" unfolding grouped_ids [OF g all] by auto
    then show ?thesis unfolding grouped_ids [OF g all] by (rule Max_lessThan_nat)
  qed
  have runs: "list_all (\<lambda>i. node_id (?f2c ! i) < length gs \<and> i \<in> set (gs ! node_id (?f2c ! i))) (nodes fine_graph)"
    unfolding list_all_iff nodes_def
  proof
    fix i assume "i \<in> set [0..<num_nodes fine_graph]"
    then have "i < n" using n by simp
    then obtain k where "k < length gs" "i \<in> set (gs ! k)" "?f2c ! i = Some k"
      using grouped_member [OF g, of i] all by blast
    then show "node_id (?f2c ! i) < length gs \<and> i \<in> set (gs ! node_id (?f2c ! i))" by simp
  qed
  show ?thesis
    unfolding coarse_map_ok_def using len n assigned mx runs by (simp add: nn er)
qed

subsection \<open>GEM delivers the mapping\<close>

lemma set_insort_by: "set (insort_by cmp x xs) = insert x (set xs)"
  by (induction xs) auto

lemma set_sort_by: "set (sort_by cmp xs) = set xs"
  unfolding sort_by_def by (induction xs) (simp_all add: set_insort_by)

lemma wf_graph_wedges_of:
  "wf_graph g \<Longrightarrow> a < num_nodes g \<Longrightarrow> (b, w) \<in> set (wedges_of g a) \<Longrightarrow> b < num_nodes g"
  unfolding wf_graph_def nodes_def list_all_iff by fastforce

lemma wf_graph_wedges:
  assumes "wf_graph g" "e \<in> set (wedges g)"
  shows "fst e < num_nodes g \<and> fst (snd e) < num_nodes g"
proof -
  from assms(2) obtain a b w where e: "e = (a, b, w)" "a < num_nodes g" "(b, w) \<in> set (wedges_of g a)"
    unfolding wedges_def nodes_def by auto
  then show ?thesis using wf_graph_wedges_of [OF assms(1)] by auto
qed

lemma CoarsenGEM_ok:
  assumes "wf_graph g"
  shows "coarse_map_ok g (CoarsenGEM h g)"
proof -
  let ?n = "num_nodes g"
  let ?m1 = "gem_merge (gem_fine_edges h g) (matching_init ?n)"
  have "\<exists>gs. grouped ?n gs (matching_init ?n) \<and> length gs = coarse_node (matching_init ?n)"
    using grouped_init [of ?n] by (intro exI [of _ "[]"]) (simp add: matching_init_def)
  moreover have "\<forall>e \<in> set (gem_fine_edges h g). fst e < ?n \<and> fst (snd e) < ?n"
    using wf_graph_wedges [OF assms] by (simp add: gem_fine_edges_def set_sort_by)
  ultimately have inv1: "\<exists>gs. grouped ?n gs ?m1 \<and> length gs = coarse_node ?m1"
    by (rule gem_merge_inv [rotated])
  have "\<forall>a \<in> set (nodes g). a < ?n" by (simp add: nodes_def)
  from gem_rest_inv [OF this inv1]
  obtain gs where gs: "grouped ?n gs (gem_matching h g)"
    and all: "\<forall>i < ?n. fine_to_coarse (gem_matching h g) ! i \<noteq> None"
    unfolding gem_matching_def by (auto simp: nodes_def)
  show ?thesis
    unfolding CoarsenGEM_def Let_def
    by (rule grouped_coarse_map_ok [OF gs all refl])
qed

subsection \<open>The loops of HEM\<close>

lemma hem_scan_best:
  assumes "\<forall>e \<in> set es. fst e < n"
    and "\<forall>b. best = Some b \<longrightarrow> b < n \<and> f2c ! b = None"
  shows "\<forall>b. fst (hem_scan env g f2c es (best, bw, rng)) = Some b \<longrightarrow> b < n \<and> f2c ! b = None"
  using assms
proof (induction es arbitrary: best bw rng)
  case Nil
  then show ?case by simp
next
  case (Cons e es)
  obtain nb ew where e: "e = (nb, ew)" by (cases e) auto
  have rest: "\<forall>e \<in> set es. fst e < n" using Cons.prems(1) by simp
  have nb: "nb < n" using Cons.prems(1) e by simp
  show ?case
  proof (cases "f2c ! nb \<noteq> None")
    case True
    then show ?thesis using Cons.IH [OF rest Cons.prems(2)] by (simp add: e)
  next
    case False
    obtain lt rng' where l: "less_or env (weight g nb) (weight_at env g best) rng = (lt, rng')"
      by (cases "less_or env (weight g nb) (weight_at env g best) rng") auto
    show ?thesis
    proof (cases "greater_or env ew bw lt")
      case True
      have "\<forall>b. Some nb = Some b \<longrightarrow> b < n \<and> f2c ! b = None" using nb False by simp
      from Cons.IH [OF rest this] show ?thesis using False True l by (simp add: e)
    next
      case g: False
      from Cons.IH [OF rest Cons.prems(2)] show ?thesis using False g l by (simp add: e)
    qed
  qed
qed

lemma hem_loop_inv:
  assumes wf: "wf_graph g" and n: "n = num_nodes g"
    and ns: "\<forall>a \<in> set ns. a < n"
    and inv: "\<exists>gs. grouped n gs m \<and> (length gs = coarse_node m \<or> length gs = coarse_node m + 1)"
  shows "(\<exists>gs. grouped n gs (fst (hem_loop env g ns (m, rng))) \<and>
              (length gs = coarse_node (fst (hem_loop env g ns (m, rng))) \<or>
               length gs = coarse_node (fst (hem_loop env g ns (m, rng))) + 1)) \<and>
         (\<forall>i < n. fine_to_coarse m ! i \<noteq> None \<or> i \<in> set ns \<longrightarrow>
                  fine_to_coarse (fst (hem_loop env g ns (m, rng))) ! i \<noteq> None)"
  using ns inv
proof (induction ns arbitrary: m rng)
  case Nil
  then show ?case by simp
next
  case (Cons a ns)
  have a: "a < n" using Cons.prems(1) by simp
  have rest: "\<forall>a \<in> set ns. a < n" using Cons.prems(1) by simp
  show ?case
  proof (cases "fine_to_coarse m ! a = None")
    case False
    then have "hem_loop env g (a # ns) (m, rng) = hem_loop env g ns (m, rng)" by simp
    then show ?thesis using Cons.IH [OF rest Cons.prems(2), of rng] False by auto
  next
    case True
    define m1 where "m1 = \<lparr>coarse_node = coarse_node m + 1,
                  coarse_to_fine = coarse_to_fine m @ [a],
                  fine_to_coarse = (fine_to_coarse m)[a := Some (coarse_node m)]\<rparr>"
    from Cons.prems(2) obtain gs where gs: "grouped n gs m"
      and lgs: "length gs = coarse_node m \<or> length gs = coarse_node m + 1" by blast
    have len: "length (fine_to_coarse m) = n" using gs by (simp add: grouped_def)
    have "\<exists>gs1. grouped n gs1 m1 \<and> length gs1 = coarse_node m1"
      using lgs
    proof
      assume l: "length gs = coarse_node m"
      have "grouped n (gs @ [[a]]) m1"
      proof (rule grouped_new_group [OF gs])
        show "[a] \<noteq> []" by simp
        show "\<forall>x \<in> set [a]. x < n \<and> fine_to_coarse m ! x = None" using a True by simp
        show "coarse_to_fine m1 = coarse_to_fine m @ [a]" by (simp add: m1_def)
        show "length (fine_to_coarse m1) = n" using len by (simp add: m1_def)
        show "\<forall>x \<in> set [a]. fine_to_coarse m1 ! x = Some (length gs)"
          using a len l by (simp add: m1_def)
        show "\<forall>i < n. i \<notin> set [a] \<longrightarrow> fine_to_coarse m1 ! i = fine_to_coarse m ! i"
          by (simp add: m1_def)
      qed
      moreover have "length (gs @ [[a]]) = coarse_node m1" using l by (simp add: m1_def)
      ultimately show ?thesis by blast
    next
      assume l: "length gs = coarse_node m + 1"
      then have ne: "gs \<noteq> []" by auto
      have "grouped n (butlast gs @ [last gs @ [a]]) m1"
      proof (rule grouped_extend_last [OF gs ne a True])
        show "coarse_to_fine m1 = coarse_to_fine m @ [a]" by (simp add: m1_def)
        show "fine_to_coarse m1 = (fine_to_coarse m)[a := Some (length gs - 1)]"
          using l by (simp add: m1_def)
      qed
      moreover have "length (butlast gs @ [last gs @ [a]]) = coarse_node m1"
        using l ne by (simp add: m1_def)
      ultimately show ?thesis by blast
    qed
    then obtain gs1 where gs1: "grouped n gs1 m1" and lgs1: "length gs1 = coarse_node m1" by blast
    have len1: "length (fine_to_coarse m1) = n" using len by (simp add: m1_def)
    obtain best bw rng' where scan:
      "hem_scan env g (fine_to_coarse m1) (wedges_of g a) (None, 0, rng) = (best, bw, rng')"
      by (cases "hem_scan env g (fine_to_coarse m1) (wedges_of g a) (None, 0, rng)") auto
    have "\<forall>e \<in> set (wedges_of g a). fst e < n"
      using wf_graph_wedges_of [OF wf, of a] a n by auto
    from hem_scan_best [OF this, of None "fine_to_coarse m1" env g 0 rng]
    have best: "\<forall>b. best = Some b \<longrightarrow> b < n \<and> fine_to_coarse m1 ! b = None"
      by (simp add: scan)
    define m2 where "m2 = (case best of None \<Rightarrow> m1
                  | Some b \<Rightarrow>
                      \<lparr>coarse_node = coarse_node m1,
                       coarse_to_fine = coarse_to_fine m1 @ [b],
                       fine_to_coarse = (fine_to_coarse m1)[b := Some (coarse_node m1)]\<rparr>)"
    have inv2: "\<exists>gs. grouped n gs m2 \<and> (length gs = coarse_node m2 \<or> length gs = coarse_node m2 + 1)"
    proof (cases best)
      case None
      then show ?thesis using gs1 lgs1 by (auto simp: m2_def)
    next
      case (Some b)
      then have b: "b < n" "fine_to_coarse m1 ! b = None" using best by auto
      have "grouped n (gs1 @ [[b]]) m2"
      proof (rule grouped_new_group [OF gs1])
        show "[b] \<noteq> []" by simp
        show "\<forall>x \<in> set [b]. x < n \<and> fine_to_coarse m1 ! x = None" using b by simp
        show "coarse_to_fine m2 = coarse_to_fine m1 @ [b]" by (simp add: m2_def Some)
        show "length (fine_to_coarse m2) = n" using len1 by (simp add: m2_def Some)
        show "\<forall>x \<in> set [b]. fine_to_coarse m2 ! x = Some (length gs1)"
          using b len1 lgs1 by (simp add: m2_def Some)
        show "\<forall>i < n. i \<notin> set [b] \<longrightarrow> fine_to_coarse m2 ! i = fine_to_coarse m1 ! i"
          by (simp add: m2_def Some)
      qed
      moreover have "length (gs1 @ [[b]]) = coarse_node m2 + 1" using lgs1 by (simp add: m2_def Some)
      ultimately show ?thesis by blast
    qed
    have mono1: "fine_to_coarse m1 ! i \<noteq> None" if "i < n" "fine_to_coarse m ! i \<noteq> None \<or> i = a" for i
      using that len by (cases "i = a") (simp_all add: m1_def)
    have mono2: "fine_to_coarse m2 ! i \<noteq> None" if "i < n" "fine_to_coarse m1 ! i \<noteq> None" for i
    proof (cases best)
      case None
      then show ?thesis using that by (simp add: m2_def)
    next
      case (Some b)
      then show ?thesis using that len1 by (cases "i = b") (simp_all add: m2_def)
    qed
    have step: "hem_loop env g (a # ns) (m, rng) = hem_loop env g ns (m2, rng')"
      using True scan [unfolded m1_def] by (cases best) (simp_all add: m1_def m2_def Let_def)
    show ?thesis
      unfolding step using Cons.IH [OF rest inv2, of rng'] mono1 mono2 by auto
  qed
qed

lemma CoarsenHEM_ok:
  assumes "wf_graph g"
  shows "coarse_map_ok g (CoarsenHEM env g)"
proof -
  let ?n = "num_nodes g"
  have "\<exists>gs. grouped ?n gs (matching_init ?n) \<and>
          (length gs = coarse_node (matching_init ?n) \<or> length gs = coarse_node (matching_init ?n) + 1)"
    using grouped_init [of ?n] by (intro exI [of _ "[]"]) (simp add: matching_init_def)
  moreover have "\<forall>a \<in> set (hem_fine_nodes env g). a < ?n"
    by (simp add: hem_fine_nodes_def set_sort_by nodes_def)
  ultimately have "(\<exists>gs. grouped ?n gs (hem_matching env g) \<and>
              (length gs = coarse_node (hem_matching env g) \<or>
               length gs = coarse_node (hem_matching env g) + 1)) \<and>
         (\<forall>i < ?n. fine_to_coarse (matching_init ?n) ! i \<noteq> None \<or> i \<in> set (hem_fine_nodes env g) \<longrightarrow>
                  fine_to_coarse (hem_matching env g) ! i \<noteq> None)"
    unfolding hem_matching_def by (intro hem_loop_inv [OF assms refl])
  then obtain gs where gs: "grouped ?n gs (hem_matching env g)"
    and all: "\<forall>i < ?n. fine_to_coarse (hem_matching env g) ! i \<noteq> None"
    by (auto simp: hem_fine_nodes_def set_sort_by nodes_def)
  show ?thesis
    unfolding CoarsenHEM_def Let_def
    by (rule grouped_coarse_map_ok [OF gs all refl])
qed

subsection \<open>Both coarsening functions deliver the mapping\<close>

text \<open>
  C9. On a graph whose neighbour lists name nodes of the graph, HEM (whatever the hash, the
  comparison helpers and the generator) and GEM (whatever the hash) give every fine node a
  coarse node, the largest coarse node plus one is the number of nodes of the coarse
  graph, and every fine node stands in the run of \<open>coarse_to_fine\<close> of its coarse node.
\<close>

theorem coarsening_maps_ok:
  assumes "wf_graph g"
  shows "coarse_map_ok g (CoarsenHEM env g) \<and> coarse_map_ok g (CoarsenGEM h g)"
  using CoarsenHEM_ok [OF assms] CoarsenGEM_ok [OF assms] by blast

lemma path3_wf: "wf_graph path3"
  by code_simp

theorem coarsening_maps_ok_witness:
  "wf_graph path3 \<and>
   coarse_map_ok path3 (CoarsenHEM hem_env_example path3) \<and>
   coarse_map_ok path3 (CoarsenGEM (\<lambda>a b. 0) path3) \<and>
   snd (CoarsenHEM hem_env_example path3) = ([0, 1, 2], [Some 0, Some 1, Some 1]) \<and>
   snd (CoarsenGEM (\<lambda>a b. 0) path3) = ([1, 2, 0], [Some 1, Some 0, Some 0])"
proof -
  have "snd (CoarsenHEM hem_env_example path3) = ([0, 1, 2], [Some 0, Some 1, Some 1])"
    by code_simp
  moreover have "snd (CoarsenGEM (\<lambda>a b. 0) path3) = ([1, 2, 0], [Some 1, Some 0, Some 0])"
    by code_simp
  ultimately show ?thesis
    using path3_wf coarsening_maps_ok [OF path3_wf, of hem_env_example "\<lambda>a b. 0"] by blast
qed

section \<open>The multilevel partitioner follows the procedure of the spec\<close>

lemma stop_coarsening_real:
  assumes "0 < num_nodes G"
  shows "stop_coarsening K G G' \<longleftrightarrow>
         (real (num_nodes G') \<le> 15 * real K \<or> real (num_nodes G') / real (num_nodes G) \<ge> 0.8)"
proof -
  have "real (num_nodes G') \<le> 15 * real K \<longleftrightarrow> num_nodes G' \<le> 15 * K"
    by (metis of_nat_le_iff of_nat_mult of_nat_numeral)
  moreover have "real (num_nodes G') / real (num_nodes G) \<ge> 0.8 \<longleftrightarrow>
                 num_nodes G' * 10 \<ge> num_nodes G * 8"
  proof -
    have "real (num_nodes G') / real (num_nodes G) \<ge> 0.8 \<longleftrightarrow>
          real (num_nodes G) * 8 \<le> real (num_nodes G') * 10"
      using assms by (simp add: field_simps)
    also have "\<dots> \<longleftrightarrow> real (num_nodes G * 8) \<le> real (num_nodes G' * 10)" by simp
    also have "\<dots> \<longleftrightarrow> num_nodes G * 8 \<le> num_nodes G' * 10" by (rule of_nat_le_iff)
    finally show ?thesis .
  qed
  ultimately show ?thesis by (simp add: stop_coarsening_def)
qed

lemma not_stop_positive: "\<not> stop_coarsening K G G' \<Longrightarrow> 0 < num_nodes G'"
  by (auto simp: stop_coarsening_def)

lemma multilevel_rec_unfold:
  assumes "length parts = num_nodes G" "c G = (G', c2f, f2c)"
  shows "multilevel_rec c pc rf K G parts =
           (case (if stop_coarsening K G G'
                  then Some (pc G' (replicate (num_nodes G') 0) K)
                  else multilevel_rec c pc rf K G' (replicate (num_nodes G') 0)) of
              None \<Rightarrow> None
            | Some coarse_parts \<Rightarrow> project_and_refine rf K G parts f2c coarse_parts)"
  using assms by (subst multilevel_rec.simps) simp

lemma multilevel_rec_length:
  "multilevel_rec c pc rf K G parts = Some r \<Longrightarrow> length parts = num_nodes G"
  by (subst (asm) multilevel_rec.simps) (simp split: if_splits)

lemma project_and_refine_spec:
  assumes "length f2c = length parts"
  shows "project_and_refine rf K G parts f2c cp = Some r \<longleftrightarrow>
         (\<exists>projected. projected_back f2c cp projected \<and> r = rf G projected K)"
proof
  assume pr: "project_and_refine rf K G parts f2c cp = Some r"
  let ?p = "map (\<lambda>i. cp ! i) (map node_id f2c)"
  have inr: "list_all (\<lambda>i. i < length cp) (map node_id f2c)"
    using pr by (auto simp: project_and_refine_def permuted_view_def split: if_splits)
  then have pv: "permuted_view cp (map node_id f2c) = Some ?p"
    by (simp add: permuted_view_def)
  have ci: "\<And>p. length p = length parts \<Longrightarrow> copy_into p parts = Some p"
    by (simp add: copy_into_def)
  have r: "r = rf G ?p K"
    using pr assms by (simp add: project_and_refine_def pv ci)
  have "\<forall>i < length f2c. node_id (f2c ! i) < length cp"
    using inr by (simp add: list_all_length)
  then have "projected_back f2c cp ?p"
    by (simp add: projected_back_def)
  with r show "\<exists>projected. projected_back f2c cp projected \<and> r = rf G projected K" by blast
next
  assume "\<exists>projected. projected_back f2c cp projected \<and> r = rf G projected K"
  then obtain projected where pb: "projected_back f2c cp projected" and r: "r = rf G projected K"
    by blast
  have len: "length projected = length f2c" using pb by (simp add: projected_back_def)
  have pt: "\<forall>i < length f2c. node_id (f2c ! i) < length cp \<and> projected ! i = cp ! node_id (f2c ! i)"
    using pb by (simp add: projected_back_def)
  have inr: "list_all (\<lambda>i. i < length cp) (map node_id f2c)"
    using pt by (simp add: list_all_length)
  have eq: "map (\<lambda>i. cp ! i) (map node_id f2c) = projected"
    using len pt by (intro nth_equalityI) simp_all
  have pv: "permuted_view cp (map node_id f2c) = Some projected"
    using inr eq by (simp add: permuted_view_def)
  have ci: "copy_into projected parts = Some projected"
    using assms len by (simp add: copy_into_def)
  show "project_and_refine rf K G parts f2c cp = Some r"
    by (simp add: project_and_refine_def pv ci r)
qed

lemma multilevel_rec_sound:
  "(\<And>H. length (snd (snd (c H))) = num_nodes H) \<Longrightarrow>
   0 < num_nodes G \<Longrightarrow> multilevel_rec c pc rf K G parts = Some r \<Longrightarrow>
   multilevel_spec c pc rf K G parts r"
proof (induction c pc rf K G parts arbitrary: r rule: multilevel_rec.induct)
  case (1 c pc rf K G parts)
  have len: "length parts = num_nodes G"
    using "1.prems"(3) by (rule multilevel_rec_length)
  obtain G' c2f f2c where co: "c G = (G', c2f, f2c)" by (cases "c G") auto
  have lf: "length f2c = length parts" using "1.prems"(1) [of G, unfolded co] len by simp
  note unfold = multilevel_rec_unfold [of parts G c G' c2f f2c pc rf K, OF len co]
  show ?case
  proof (cases "stop_coarsening K G G'")
    case True
    have pr: "project_and_refine rf K G parts f2c (pc G' (replicate (num_nodes G') 0) K) = Some r"
      using "1.prems"(3) unfolding unfold by (simp add: True)
    then obtain projected where
      pb: "projected_back f2c (pc G' (replicate (num_nodes G') 0) K) projected"
      and r: "r = rf G projected K"
      unfolding project_and_refine_spec [OF lf] by blast
    have st: "real (num_nodes G') \<le> 15 * real K \<or> real (num_nodes G') / real (num_nodes G) \<ge> 0.8"
      using True stop_coarsening_real [OF "1.prems"(2), of K G'] by blast
    show ?thesis
      by (rule multilevel_spec.coarsest [where coarsen = c and partition_coarsest = pc
            and refine = rf, OF len co st pb r])
  next
    case False
    have eq: "(case multilevel_rec c pc rf K G' (replicate (num_nodes G') 0) of
              None \<Rightarrow> None
            | Some coarse_parts \<Rightarrow> project_and_refine rf K G parts f2c coarse_parts) = Some r"
      using "1.prems"(3) unfolding unfold by (simp add: False)
    then obtain parts' where
      rec: "multilevel_rec c pc rf K G' (replicate (num_nodes G') 0) = Some parts'"
      by (cases "multilevel_rec c pc rf K G' (replicate (num_nodes G') 0)") simp_all
    have pr: "project_and_refine rf K G parts f2c parts' = Some r"
      using eq by (simp add: rec)
    then obtain projected where
      pb: "projected_back f2c parts' projected" and r: "r = rf G projected K"
      unfolding project_and_refine_spec [OF lf] by blast
    have neq: "\<not> num_nodes G \<noteq> length parts" using len by simp
    have spec': "multilevel_spec c pc rf K G' (replicate (num_nodes G') 0) parts'"
      by (rule "1.IH" [OF neq co [symmetric] refl False "1.prems"(1) not_stop_positive [OF False] rec])
    have ns: "\<not> (real (num_nodes G') \<le> 15 * real K \<or> real (num_nodes G') / real (num_nodes G) \<ge> 0.8)"
      using False stop_coarsening_real [OF "1.prems"(2), of K G'] by blast
    show ?thesis
      by (rule multilevel_spec.recurse [where coarsen = c and partition_coarsest = pc
            and refine = rf, OF len co ns spec' pb r])
  qed
qed

lemma multilevel_rec_complete:
  assumes full: "\<And>G. length (snd (snd (c G))) = num_nodes G"
  shows "multilevel_spec c pc rf K G parts r \<Longrightarrow> 0 < num_nodes G \<Longrightarrow>
         multilevel_rec c pc rf K G parts = Some r"
proof (induction rule: multilevel_spec.induct)
  case (coarsest parts G G' c2f f2c projected result)
  have lf: "length f2c = length parts" using full [of G, unfolded coarsest.hyps(2)] coarsest.hyps(1) by simp
  have st: "stop_coarsening K G G'"
    using coarsest.hyps(3) coarsest.prems stop_coarsening_real [of G K G'] by blast
  have "project_and_refine rf K G parts f2c (pc G' (replicate (num_nodes G') 0) K) = Some result"
    unfolding project_and_refine_spec [OF lf] using coarsest.hyps(4,5) by blast
  then show ?case
    using st by (simp add: multilevel_rec_unfold [of parts G c G' c2f f2c pc rf K, OF coarsest.hyps(1,2)])
next
  case (recurse parts G G' c2f f2c parts' projected result)
  have lf: "length f2c = length parts" using full [of G, unfolded recurse.hyps(2)] recurse.hyps(1) by simp
  have ns: "\<not> stop_coarsening K G G'"
    using recurse.hyps(3) recurse.prems stop_coarsening_real [of G K G'] by blast
  have rec: "multilevel_rec c pc rf K G' (replicate (num_nodes G') 0) = Some parts'"
    by (rule recurse.IH [OF not_stop_positive [OF ns]])
  have "project_and_refine rf K G parts f2c parts' = Some result"
    unfolding project_and_refine_spec [OF lf] using recurse.hyps(5,6) by blast
  then show ?case
    using rec ns by (simp add: multilevel_rec_unfold [of parts G c G' c2f f2c pc rf K, OF recurse.hyps(1,2)])
qed

lemma gem_merge_length:
  "length (fine_to_coarse (gem_merge es m)) = length (fine_to_coarse m)"
  by (induction es m rule: gem_merge.induct) simp_all

lemma gem_rest_length:
  "length (fine_to_coarse (gem_rest ns m)) = length (fine_to_coarse m)"
  by (induction ns m rule: gem_rest.induct) simp_all

lemma CoarsenGEM_full: "length (snd (snd (CoarsenGEM h G))) = num_nodes G"
  by (simp add: CoarsenGEM_def Let_def gem_matching_def gem_rest_length gem_merge_length
      matching_init_def)

lemma hem_loop_length:
  "length (fine_to_coarse (fst (hem_loop env g ns s))) = length (fine_to_coarse (fst s))"
proof (induction env g ns s rule: hem_loop.induct)
  case (1 env g s)
  then show ?case by simp
next
  case (2 env g fine_node rest m rng)
  show ?case
  proof (cases "fine_to_coarse m ! fine_node \<noteq> None")
    case True
    then show ?thesis using 2(1) by simp
  next
    case False
    define m1 where "m1 = \<lparr>coarse_node = coarse_node m + 1,
                  coarse_to_fine = coarse_to_fine m @ [fine_node],
                  fine_to_coarse = (fine_to_coarse m)[fine_node := Some (coarse_node m)]\<rparr>"
    obtain best w rng' where
      scan: "hem_scan env g (fine_to_coarse m1) (wedges_of g fine_node) (None, 0, rng) = (best, w, rng')"
      by (cases "hem_scan env g (fine_to_coarse m1) (wedges_of g fine_node) (None, 0, rng)") auto
    have nn: "\<not> fine_to_coarse m ! fine_node \<noteq> None" using False .
    note ih = 2(2) [OF nn m1_def scan [symmetric] refl]
    show ?thesis
      using False scan [unfolded m1_def] ih
      by (cases best) (simp_all add: m1_def Let_def)
  qed
qed

lemma CoarsenHEM_full: "length (snd (snd (CoarsenHEM env G))) = num_nodes G"
  by (simp add: CoarsenHEM_def Let_def hem_matching_def hem_loop_length matching_init_def)

text \<open>
  C7. For a coarsening function whose map has an entry for every node of the graph it is
  given, the partitioner returns \<open>r\<close> exactly when its arguments pass the checks and the
  procedure of the spec yields \<open>r\<close>: after coarsening \<open>G\<close> to \<open>G'\<close> the coarsest partitioner
  is called exactly when \<open>|V(G')| \<le> 15 K\<close> or \<open>|V(G')| / |V(G)| \<ge> 0.8\<close>, otherwise the
  procedure is applied to \<open>G'\<close>; in both cases every node \<open>i\<close> of \<open>G\<close> is given the part of
  its coarse node \<open>fine_to_coarse[i]\<close>, and the result is the refiner applied to \<open>G\<close> and
  these projected parts. The recursion always ends: the function is total.
\<close>

theorem multilevel_partition_follows_spec:
  assumes "\<And>G. length (snd (snd (c G))) = num_nodes G"
  shows "MultilevelPartition c pc rf G parts K = Some r \<longleftrightarrow>
     0 < K \<and> K \<le> num_nodes G \<and> length parts = num_nodes G \<and>
     multilevel_spec c pc rf K G parts r"
proof (cases "0 < K \<and> K \<le> num_nodes G \<and> length parts = num_nodes G")
  case False
  then show ?thesis by (auto simp: MultilevelPartition_def)
next
  case True
  then have pos: "0 < num_nodes G" by simp
  have "MultilevelPartition c pc rf G parts K = multilevel_rec c pc rf K G parts"
    using True by (simp add: MultilevelPartition_def)
  moreover have "multilevel_rec c pc rf K G parts = Some r \<longleftrightarrow> multilevel_spec c pc rf K G parts r"
    using multilevel_rec_sound [of c G pc rf K parts r, OF assms pos]
      multilevel_rec_complete [of c pc rf K G parts r, OF assms _ pos] by blast
  ultimately show ?thesis using True by simp
qed

text \<open>
  A run with two levels: a path of 32 nodes and one part, coarsened by GEM to 16 and then to
  8 nodes. The refiner of the run marks node 0 with the number \<open>K\<close>, so that the result
  shows both steps: the mark made on the graph of 16 nodes, whose node 0 stands for the
  nodes 30 and 31 of the path, is projected to these two nodes, and node 0 of the path
  carries the mark of the last refinement.
\<close>

lemma path32_run:
  "MultilevelPartition (CoarsenGEM (\<lambda>a b. a + b)) UniformPartition (\<lambda>g p k. p[0 := k])
     (path_graph 32) (replicate 32 7) 1 = Some (1 # replicate 29 0 @ [1, 1])"
  by code_simp

lemma path32_recurses:
  "\<not> stop_coarsening 1 (path_graph 32) (fst (CoarsenGEM (\<lambda>a b. a + b) (path_graph 32)))"
  by code_simp

theorem multilevel_partition_follows_spec_witness:
  "MultilevelPartition (CoarsenGEM (\<lambda>a b. a + b)) UniformPartition (\<lambda>g p k. p[0 := k])
     (path_graph 32) (replicate 32 7) 1 = Some (1 # replicate 29 0 @ [1, 1]) \<and>
   \<not> stop_coarsening 1 (path_graph 32) (fst (CoarsenGEM (\<lambda>a b. a + b) (path_graph 32))) \<and>
   multilevel_spec (CoarsenGEM (\<lambda>a b. a + b)) UniformPartition (\<lambda>g p k. p[0 := k]) 1
     (path_graph 32) (replicate 32 7) (1 # replicate 29 0 @ [1, 1])"
  using path32_run path32_recurses
    multilevel_partition_follows_spec [of "CoarsenGEM (\<lambda>a b. a + b)" UniformPartition
      "\<lambda>g p k. p[0 := k]" "path_graph 32" "replicate 32 7" 1
      "1 # replicate 29 0 @ [1, 1]", OF CoarsenGEM_full]
  by blast

section \<open>Properties of the particle mesh\<close>

subsection \<open>Reading back what was appended\<close>

lemma from_buckets_snoc: "from_buckets (xss @ [xs]) = append_bucket xs (from_buckets xss)"
  by (simp add: from_buckets_def)

lemma from_buckets_repr:
  "mv_vals (from_buckets xss) = concat xss \<and>
   mv_offsets (from_buckets xss) = map (\<lambda>k. length (concat (take k xss))) [0..<Suc (length xss)]"
proof (induction xss rule: rev_induct)
  case Nil
  then show ?case by (simp add: from_buckets_def mv_clear_def)
next
  case (snoc xs xss)
  have last_off: "last (mv_offsets (from_buckets xss)) = length (concat xss)"
    using snoc by simp
  have "map (\<lambda>k. length (concat (take k (xss @ [xs])))) [0..<Suc (length xss)]
        = map (\<lambda>k. length (concat (take k xss))) [0..<Suc (length xss)]"
    by (rule map_cong) auto
  then show ?case
    using snoc last_off by (simp add: from_buckets_snoc append_bucket_def)
qed

lemma num_buckets_from_buckets: "num_buckets (from_buckets xss) = length xss"
  by (simp add: num_buckets_def from_buckets_repr)

lemma concat_split_nth:
  assumes "i < length xss"
  shows "concat xss = concat (take i xss) @ xss ! i @ concat (drop (Suc i) xss)"
proof -
  have "xss = take i xss @ xss ! i # drop (Suc i) xss"
    using assms by (rule id_take_nth_drop)
  then have "concat xss = concat (take i xss @ xss ! i # drop (Suc i) xss)" by simp
  then show ?thesis by simp
qed

lemma bucket_from_buckets:
  assumes "i < length xss"
  shows "bucket (from_buckets xss) i = xss ! i"
proof -
  let ?off = "\<lambda>k. length (concat (take k xss))"
  have o1: "mv_offsets (from_buckets xss) ! i = ?off i"
    using assms by (simp add: from_buckets_repr nth_map_upt del: upt_Suc)
  have o2: "mv_offsets (from_buckets xss) ! (i + 1) = ?off (Suc i)"
    using assms nth_map_upt [of "Suc i" "Suc (length xss)" 0 ?off]
    by (simp add: from_buckets_repr del: upt_Suc)
  have "?off (Suc i) = ?off i + length (xss ! i)"
    using assms by (simp add: take_Suc_conv_app_nth)
  then have d: "?off (Suc i) - ?off i = length (xss ! i)" by simp
  have "drop (?off i) (concat xss) = xss ! i @ concat (drop (Suc i) xss)"
    by (subst concat_split_nth [OF assms]) simp
  then have "take (length (xss ! i)) (drop (?off i) (concat xss)) = xss ! i" by simp
  then show ?thesis
    unfolding bucket_def subrange_def o1 o2 d by (simp add: from_buckets_repr)
qed

lemma buckets_from_buckets: "buckets (from_buckets xss) = xss"
  by (rule nth_equalityI)
     (simp_all add: buckets_def num_buckets_from_buckets bucket_from_buckets)

subsection \<open>The parallel loops of the search\<close>

lemma for_each_result_Inr:
  assumes "\<forall>x \<in> set xs. f x = Inr (g x)"
  shows "for_each_result f xs = Inr (map g xs)"
  using assms by (induction xs) simp_all

lemma for_each_result_Inl:
  assumes "x \<in> set xs" "f x = Inl e"
  shows "\<exists>e' y. y \<in> set xs \<and> f y = Inl e' \<and> for_each_result f xs = Inl e'"
  using assms
proof (induction xs)
  case Nil
  then show ?case by simp
next
  case (Cons z zs)
  show ?case
  proof (cases "f z")
    case (Inl e0)
    then show ?thesis by auto
  next
    case (Inr v)
    then have "x \<in> set zs" using Cons.prems by auto
    from Cons.IH [OF this Cons.prems(2)]
    obtain e' y where "y \<in> set zs" "f y = Inl e'" "for_each_result f zs = Inl e'" by blast
    then show ?thesis using Inr by auto
  qed
qed

lemma neighbors_task_ok:
  assumes "radius_func a = Inr rad" "0 < rad"
  shows "neighbors_task cfg ps radius_func a =
           Inr (sort (search_func cfg (r_pos ps) (r_pos ps ! a) rad))"
  using assms by (simp add: neighbors_task_def)

lemma interp_task_ok:
  assumes "radius_func a = Inr rad"
  shows "interp_task cfg ps radius_func a =
           Inr (sort (filter (\<lambda>b. \<not> has_type ps b fixed)
                  (search_func cfg (r_pos ps) (interp_point (mesh_Domain cfg) (r_pos ps ! a)) (3 * rad))))"
  using assms by (simp add: interp_task_def)

lemma set_fixed_of: "set (fixed_of ps) \<subseteq> {..<size_of ps}"
  by (auto simp: fixed_of_def all_of_def)

lemma search_impl_ok:
  assumes "\<forall>a < size_of ps. \<exists>rad. radius_func a = Inr rad \<and> 0 < rad"
  shows "search_impl cfg mesh ps radius_func =
    (None,
     mesh\<lparr>adjacency := from_buckets
             (map (\<lambda>a. sort (search_func cfg (r_pos ps) (r_pos ps ! a) (projr (radius_func a))))
                  (all_of ps)),
           interp_adjacency := from_buckets
             (map (\<lambda>a. sort (filter (\<lambda>b. \<not> has_type ps b fixed)
                    (search_func cfg (r_pos ps) (interp_point (mesh_Domain cfg) (r_pos ps ! a))
                       (3 * projr (radius_func a)))))
                  (fixed_of ps))\<rparr>)"
proof -
  have "\<forall>a \<in> set (all_of ps). neighbors_task cfg ps radius_func a =
          Inr (sort (search_func cfg (r_pos ps) (r_pos ps ! a) (projr (radius_func a))))"
  proof
    fix a assume "a \<in> set (all_of ps)"
    then obtain rad where "radius_func a = Inr rad" "0 < rad"
      using assms by (auto simp: all_of_def)
    then show "neighbors_task cfg ps radius_func a =
          Inr (sort (search_func cfg (r_pos ps) (r_pos ps ! a) (projr (radius_func a))))"
      using neighbors_task_ok [of radius_func a rad cfg ps] by simp
  qed
  then have l1: "for_each_result (neighbors_task cfg ps radius_func) (all_of ps) =
      Inr (map (\<lambda>a. sort (search_func cfg (r_pos ps) (r_pos ps ! a) (projr (radius_func a)))) (all_of ps))"
    by (rule for_each_result_Inr)
  have "\<forall>a \<in> set (fixed_of ps). interp_task cfg ps radius_func a =
          Inr (sort (filter (\<lambda>b. \<not> has_type ps b fixed)
                    (search_func cfg (r_pos ps) (interp_point (mesh_Domain cfg) (r_pos ps ! a))
                       (3 * projr (radius_func a)))))"
  proof
    fix a assume "a \<in> set (fixed_of ps)"
    then have "a < size_of ps" using set_fixed_of by auto
    then obtain rad where "radius_func a = Inr rad" using assms by auto
    then show "interp_task cfg ps radius_func a =
          Inr (sort (filter (\<lambda>b. \<not> has_type ps b fixed)
                    (search_func cfg (r_pos ps) (interp_point (mesh_Domain cfg) (r_pos ps ! a))
                       (3 * projr (radius_func a)))))"
      using interp_task_ok [of radius_func a rad cfg ps] by simp
  qed
  then have l2: "for_each_result (interp_task cfg ps radius_func) (fixed_of ps) =
      Inr (map (\<lambda>a. sort (filter (\<lambda>b. \<not> has_type ps b fixed)
                    (search_func cfg (r_pos ps) (interp_point (mesh_Domain cfg) (r_pos ps ! a))
                       (3 * projr (radius_func a))))) (fixed_of ps))"
    by (rule for_each_result_Inr)
  show ?thesis unfolding search_impl_def l1 l2 by simp
qed

lemma partition_impl_keeps:
  "adjacency (fst (snd (partition_impl cfg mesh ps L))) = adjacency mesh \<and>
   interp_adjacency (fst (snd (partition_impl cfg mesh ps L))) = interp_adjacency mesh"
  by (simp add: partition_impl_def Let_def split: option.splits)

lemma update_adjacency:
  assumes "\<forall>a < size_of ps. \<exists>rad. radius_func a = Inr rad \<and> 0 < rad"
  shows "adjacency (fst (snd (update cfg mesh ps radius_func))) =
           from_buckets
             (map (\<lambda>a. sort (search_func cfg (r_pos ps) (r_pos ps ! a) (projr (radius_func a))))
                  (all_of ps))"
    and "interp_adjacency (fst (snd (update cfg mesh ps radius_func))) =
           from_buckets
             (map (\<lambda>a. sort (filter (\<lambda>b. \<not> has_type ps b fixed)
                    (search_func cfg (r_pos ps) (interp_point (mesh_Domain cfg) (r_pos ps ! a))
                       (3 * projr (radius_func a)))))
                  (fixed_of ps))"
  unfolding update_def search_impl_ok [OF assms] by (simp_all add: partition_impl_keeps)

subsection \<open>The scene, evaluated\<close>

lemma scene_update:
  "update scene_config empty_mesh scene_particles scene_radius =
   (None,
    \<lparr>adjacency = \<lparr>mv_offsets = [0, 3, 6, 8, 10], mv_vals = [0, 1, 3, 0, 1, 2, 1, 2, 0, 3]\<rparr>,
     interp_adjacency = \<lparr>mv_offsets = [0, 3], mv_vals = [0, 1, 2]\<rparr>,
     block_edges = \<lparr>mv_offsets = [0, 0, 0, 0, 3], mv_vals = [(0, 1), (0, 3), (1, 2)]\<rparr>\<rparr>,
    \<lparr>r_pos = [[0], [1], [2], [- 1]], ptype = [fluid, fluid, fluid, fixed],
     parinfo = [[0, 2, 2], [0, 2, 2], [0, 2, 2], [0, 2, 2]]\<rparr>)"
  by code_simp

lemma scene_mesh_eq:
  "scene_mesh =
    \<lparr>adjacency = \<lparr>mv_offsets = [0, 3, 6, 8, 10], mv_vals = [0, 1, 3, 0, 1, 2, 1, 2, 0, 3]\<rparr>,
     interp_adjacency = \<lparr>mv_offsets = [0, 3], mv_vals = [0, 1, 2]\<rparr>,
     block_edges = \<lparr>mv_offsets = [0, 0, 0, 0, 3], mv_vals = [(0, 1), (0, 3), (1, 2)]\<rparr>\<rparr>"
  unfolding scene_mesh_def scene_update by simp

lemma scene_neighbors: "map (neighbors_of scene_mesh) [0, 1, 2, 3] = [[0, 1, 3], [0, 1, 2], [1, 2], [0, 3]]"
  unfolding scene_mesh_eq by code_simp

lemma scene_block_pairs: "block_pairs scene_mesh = [[], [], [], [(0, 1), (0, 3), (1, 2)]]"
  unfolding scene_mesh_eq by code_simp

lemma scene_size: "size_of scene_particles = 4"
  by (simp add: size_of_def scene_particles_def)

lemma scene_radius_ok: "\<forall>a < size_of scene_particles. \<exists>rad. scene_radius a = Inr rad \<and> 0 < rad"
proof (intro allI impI)
  fix a
  have "scene_radius a = Inr (3 / 2) \<and> (0::real) < 3 / 2" by (simp add: scene_radius_def)
  then show "\<exists>rad. scene_radius a = Inr rad \<and> 0 < rad" by blast
qed

subsection \<open>Distances\<close>

lemma norm2_nonneg: "0 \<le> norm2 v"
  unfolding norm2_def by (induction v) simp_all

lemma norm2_self: "norm2 (vec_sub p p) = 0"
  unfolding norm2_def vec_sub_def by (induction p) simp_all

lemma within_radius_norm: "within_radius p q rad \<longleftrightarrow> sqrt (norm2 (vec_sub p q)) \<le> rad"
proof (cases "0 \<le> rad")
  case True
  have "sqrt (norm2 (vec_sub p q)) \<le> rad \<longleftrightarrow> sqrt (norm2 (vec_sub p q)) \<le> sqrt (rad * rad)"
    using True by simp
  also have "\<dots> \<longleftrightarrow> norm2 (vec_sub p q) \<le> rad * rad" by (rule real_sqrt_le_iff)
  finally show ?thesis using True by (simp add: within_radius_def)
next
  case False
  have "0 \<le> sqrt (norm2 (vec_sub p q))" using norm2_nonneg by simp
  then have "\<not> sqrt (norm2 (vec_sub p q)) \<le> rad" using False by linarith
  then show ?thesis using False by (simp add: within_radius_def)
qed

lemma within_radius_self: "0 \<le> rad \<Longrightarrow> within_radius p p rad"
  by (simp add: within_radius_def norm2_self)

lemma GridSearch_contract: "search_contract GridSearch"
  by (auto simp: search_contract_def GridSearch_def)

lemma sorted_search:
  assumes "search_contract search"
  shows "sorted_wrt (<) (sort (filter P (search positions p rad)))"
    and "set (sort (filter P (search positions p rad))) =
           {j. j < length positions \<and> within_radius p (positions ! j) rad \<and> P j}"
proof -
  have "distinct (search positions p rad)"
    and s: "set (search positions p rad) = {j. j < length positions \<and> within_radius p (positions ! j) rad}"
    using assms unfolding search_contract_def by blast+
  then show "sorted_wrt (<) (sort (filter P (search positions p rad)))"
    by (simp add: strict_sorted_iff)
  show "set (sort (filter P (search positions p rad))) =
           {j. j < length positions \<and> within_radius p (positions ! j) rad \<and> P j}"
    using s by auto
qed

subsection \<open>The neighbour lists\<close>

text \<open>
  C3, as the code has it. After \<open>update\<close> with a search that keeps its contract and a
  positive radius for every particle, the neighbour list of a particle is strictly
  ascending and holds exactly the particles within the radius of it. The particle itself
  is one of them: nothing removes it.
\<close>

theorem neighbors_sorted_within_radius:
  assumes "search_contract (search_func cfg)"
    and "\<forall>a < size_of ps. \<exists>rad. radius_func a = Inr rad \<and> 0 < rad"
    and "a < size_of ps" and "radius_func a = Inr rad"
  shows "sorted_wrt (<) (neighbors_of (fst (snd (update cfg mesh ps radius_func))) a) \<and>
         set (neighbors_of (fst (snd (update cfg mesh ps radius_func))) a) =
           {j. j < size_of ps \<and> sqrt (norm2 (vec_sub (r_pos ps ! a) (r_pos ps ! j))) \<le> rad} \<and>
         a \<in> set (neighbors_of (fst (snd (update cfg mesh ps radius_func))) a)"
proof -
  let ?nb = "neighbors_of (fst (snd (update cfg mesh ps radius_func))) a"
  have a: "a < length (all_of ps)" "all_of ps ! a = a" using assms(3) by (simp_all add: all_of_def)
  have "?nb = sort (search_func cfg (r_pos ps) (r_pos ps ! a) rad)"
    unfolding neighbors_of_def update_adjacency(1) [OF assms(2)]
    using a assms(4) by (simp add: bucket_from_buckets)
  then have nb: "?nb = sort (filter (\<lambda>j. True) (search_func cfg (r_pos ps) (r_pos ps ! a) rad))"
    by simp
  have s: "sorted_wrt (<) ?nb"
    unfolding nb by (rule sorted_search(1) [OF assms(1)])
  have m: "set ?nb = {j. j < size_of ps \<and> sqrt (norm2 (vec_sub (r_pos ps ! a) (r_pos ps ! j))) \<le> rad}"
    unfolding nb sorted_search(2) [OF assms(1)] by (simp add: size_of_def within_radius_norm)
  have "0 < rad" using assms(2,3,4) by auto
  then have "a \<in> set ?nb" unfolding m using assms(3) by (simp add: norm2_self)
  with s m show ?thesis by blast
qed

theorem neighbors_sorted_within_radius_witness:
  "neighbors_of scene_mesh 1 = [0, 1, 2] \<and>
   sorted_wrt (<) (neighbors_of scene_mesh 1) \<and>
   1 \<in> set (neighbors_of scene_mesh 1)"
proof -
  have c: "search_contract (search_func scene_config)"
    by (simp add: scene_config_def GridSearch_contract)
  have a: "1 < size_of scene_particles" by (simp add: scene_size)
  have rd: "scene_radius 1 = Inr (3 / 2)" by (simp add: scene_radius_def)
  have "neighbors_of scene_mesh 1 = [0, 1, 2]" using scene_neighbors by simp
  then show ?thesis
    using neighbors_sorted_within_radius [OF c scene_radius_ok a rd, of empty_mesh]
    unfolding scene_mesh_def by blast
qed

text \<open>
  C3 as stated fails: in the scene every radius is positive, and particle 0 is in its own
  neighbour list.
\<close>

theorem neighbors_contain_self_counterexample:
  "scene_radius 0 = Inr (3 / 2) \<and>
   neighbors_of scene_mesh 0 = [0, 1, 3] \<and>
   \<not> (\<forall>j \<in> set (neighbors_of scene_mesh 0). j \<noteq> 0)"
  using scene_neighbors by (simp add: scene_radius_def)

subsection \<open>The interpolation lists\<close>










subsection \<open>A radius function that raises\<close>

lemma neighbors_task_Inl:
  "neighbors_task cfg ps radius_func a = Inl e \<Longrightarrow> radius_func a = Inl e \<or> e = AssertFailed"
  by (auto simp: neighbors_task_def split: sum.splits if_splits)

text \<open>
  C10, as the code has it. When the radius function raises for some particle, \<open>update\<close>
  ends with an error, which is the error of a particle whose task failed, and the mesh and
  the particles are exactly as they were before the call: the loop that calls the radius
  function runs before anything is cleared.
\<close>

theorem update_failure_keeps_outputs:
  assumes "a < size_of ps" and "radius_func a = Inl e"
  shows "\<exists>e'. update cfg mesh ps radius_func = (Some e', mesh, ps) \<and>
               (e' = AssertFailed \<or> (\<exists>b < size_of ps. radius_func b = Inl e'))"
proof -
  have m: "a \<in> set (all_of ps)" using assms(1) by (simp add: all_of_def)
  have t: "neighbors_task cfg ps radius_func a = Inl e"
    using assms(2) by (simp add: neighbors_task_def)
  from for_each_result_Inl [of a "all_of ps" "neighbors_task cfg ps radius_func" e, OF m t]
  obtain e' b where b: "b \<in> set (all_of ps)"
    "neighbors_task cfg ps radius_func b = Inl e'"
    and l: "for_each_result (neighbors_task cfg ps radius_func) (all_of ps) = Inl e'"
    by blast
  have "update cfg mesh ps radius_func = (Some e', mesh, ps)"
    by (simp add: update_def search_impl_def l)
  moreover have "b < size_of ps" using b(1) by (simp add: all_of_def)
  then have "e' = AssertFailed \<or> (\<exists>b < size_of ps. radius_func b = Inl e')"
    using neighbors_task_Inl [of cfg ps radius_func b e', OF b(2)] by blast
  ultimately show ?thesis by blast
qed

lemma scene_all: "all_of scene_particles = [0, 1, 2, 3]"
  by code_simp

lemma scene_update_raises:
  "update scene_config m scene_particles (\<lambda>a. Inl e) = (Some e, m, scene_particles)"
  by (simp add: update_def search_impl_def neighbors_task_def scene_all)

theorem update_failure_keeps_outputs_witness:
  "update scene_config scene_mesh scene_particles (\<lambda>a. Inl (Raised ''radius''))
     = (Some (Raised ''radius''), scene_mesh, scene_particles)"
proof -
  have a: "2 < size_of scene_particles" by (simp add: scene_size)
  have rf: "(\<lambda>a::nat. (Inl (Raised ''radius'') :: error + real)) 2 = Inl (Raised ''radius'')" by simp
  from update_failure_keeps_outputs [of 2 scene_particles "\<lambda>a. Inl (Raised ''radius'')"
      "Raised ''radius''" scene_config scene_mesh, OF a rf]
  obtain e' where u: "update scene_config scene_mesh scene_particles (\<lambda>a. Inl (Raised ''radius''))
       = (Some e', scene_mesh, scene_particles)"
    by blast
  then have "e' = Raised ''radius''" unfolding scene_update_raises by simp
  then show ?thesis using u by simp
qed

lemma scene_buckets:
  "buckets (adjacency scene_mesh) = [[0, 1, 3], [0, 1, 2], [1, 2], [0, 3]]"
  "buckets (interp_adjacency scene_mesh) = [[0, 1, 2]]"
  unfolding scene_mesh_eq by code_simp+

text \<open>
  C10 as stated fails: after an update of the scene that worked, an update whose radius
  function raises returns the error and leaves the three outputs as they were, none of them
  empty.
\<close>

theorem update_failure_not_cleared_counterexample:
  "fst (update scene_config scene_mesh scene_particles (\<lambda>a. Inl (Raised ''radius'')))
     = Some (Raised ''radius'') \<and>
   buckets (adjacency (fst (snd (update scene_config scene_mesh scene_particles
      (\<lambda>a. Inl (Raised ''radius'')))))) = [[0, 1, 3], [0, 1, 2], [1, 2], [0, 3]] \<and>
   buckets (interp_adjacency (fst (snd (update scene_config scene_mesh scene_particles
      (\<lambda>a. Inl (Raised ''radius'')))))) = [[0, 1, 2]] \<and>
   block_pairs (fst (snd (update scene_config scene_mesh scene_particles
      (\<lambda>a. Inl (Raised ''radius''))))) = [[], [], [], [(0, 1), (0, 3), (1, 2)]]"
  unfolding scene_update_raises by (simp add: scene_buckets scene_block_pairs)

subsection \<open>The block edges\<close>

lemma update_None:
  assumes "update cfg mesh ps radius_func = (None, mesh', ps')"
  shows "\<exists>m1. partition_impl cfg m1 ps 2 = (None, mesh', ps')"
proof -
  obtain eo m1 where s: "search_impl cfg mesh ps radius_func = (eo, m1)"
    by (cases "search_impl cfg mesh ps radius_func") auto
  show ?thesis
  proof (cases eo)
    case None
    then show ?thesis using assms s by (auto simp: update_def)
  next
    case (Some e)
    then show ?thesis using assms s by (simp add: update_def)
  qed
qed

lemma partition_impl_None:
  assumes "partition_impl cfg m ps L = (None, mesh', ps')"
  shows "adjacency mesh' = adjacency m \<and>
         assign_pairs_par_wide (L * num_threads cfg + 1 + 1)
           (transform_edges (adjacency m)
              (\<lambda>ab. (common (parinfo ps' ! fst ab) (parinfo ps' ! snd ab), ab)))
           = Some (block_edges mesh')"
  using assms
  by (auto simp: partition_impl_def Let_def split: if_splits option.splits)

lemma assign_pairs_par_wide_Some:
  assumes "assign_pairs_par_wide cnt pairs = Some be"
  shows "buckets be = map (\<lambda>k. map snd (filter (\<lambda>kv. fst kv = k) pairs)) [0..<cnt]"
    and "\<forall>kv \<in> set pairs. fst kv < cnt"
  using assms
  by (auto simp: assign_pairs_par_wide_def buckets_from_buckets list_all_iff split: if_splits)

lemma filter_keyed:
  "map snd (filter (\<lambda>kv. fst kv = k) (map (\<lambda>ab. (key ab, ab)) es)) = filter (\<lambda>ab. key ab = k) es"
  by (induction es) simp_all

lemma block_pairs_filter:
  assumes "update cfg mesh ps radius_func = (None, mesh', ps')"
  shows "block_pairs mesh' =
           map (\<lambda>k. filter (\<lambda>ab. common (parinfo ps' ! fst ab) (parinfo ps' ! snd ab) = k)
                            (edges (adjacency mesh')))
               [0..<2 * num_threads cfg + 2]"
    and "\<forall>ab \<in> set (edges (adjacency mesh')).
            common (parinfo ps' ! fst ab) (parinfo ps' ! snd ab) < 2 * num_threads cfg + 2"
proof -
  from update_None [OF assms] obtain m1 where "partition_impl cfg m1 ps 2 = (None, mesh', ps')"
    by blast
  from partition_impl_None [OF this]
  have adj: "adjacency mesh' = adjacency m1"
    and a: "assign_pairs_par_wide (2 * num_threads cfg + 1 + 1)
           (transform_edges (adjacency m1)
              (\<lambda>ab. (common (parinfo ps' ! fst ab) (parinfo ps' ! snd ab), ab)))
           = Some (block_edges mesh')"
    by blast+
  show "block_pairs mesh' =
           map (\<lambda>k. filter (\<lambda>ab. common (parinfo ps' ! fst ab) (parinfo ps' ! snd ab) = k)
                            (edges (adjacency mesh')))
               [0..<2 * num_threads cfg + 2]"
    unfolding block_pairs_def assign_pairs_par_wide_Some(1) [OF a]
    by (simp add: transform_edges_def filter_keyed adj)
  show "\<forall>ab \<in> set (edges (adjacency mesh')).
            common (parinfo ps' ! fst ab) (parinfo ps' ! snd ab) < 2 * num_threads cfg + 2"
    using assign_pairs_par_wide_Some(2) [OF a] by (simp add: transform_edges_def adj)
qed

lemma mset_filter_keys:
  "mset (concat (map (\<lambda>k. filter (\<lambda>e. key e = k) es) [0..<n])) = mset (filter (\<lambda>e. key e < n) es)"
proof (induction n)
  case 0
  then show ?case by simp
next
  case (Suc n)
  have "mset (filter (\<lambda>e. key e < n) es) + mset (filter (\<lambda>e. key e = n) es)
        = mset (filter (\<lambda>e. key e < Suc n) es)"
    by (induction es) (auto simp: less_Suc_eq)
  with Suc show ?case by simp
qed

lemma common_take: "common p q = k \<Longrightarrow> take k p = take k q"
  by (induction p q arbitrary: k rule: common.induct) (auto split: if_splits)

text \<open>
  C2. When \<open>update\<close> has completed, the block edges have \<open>2 T + 2\<close> buckets, bucket \<open>k\<close> holds
  exactly the edges of the adjacency whose two \<open>PartVec\<close>s have a common prefix of length
  \<open>k\<close>, in the order of the edges, every edge has such a bucket, and the buckets together
  hold every edge as often as the adjacency has it.
\<close>

theorem block_edges_partition_edges:
  assumes "update cfg mesh ps radius_func = (None, mesh', ps')"
  shows "length (block_pairs mesh') = 2 * num_threads cfg + 2 \<and>
         (\<forall>k < length (block_pairs mesh').
            block_pairs mesh' ! k =
              filter (\<lambda>ab. common (parinfo ps' ! fst ab) (parinfo ps' ! snd ab) = k)
                     (edges (adjacency mesh'))) \<and>
         (\<forall>ab \<in> set (edges (adjacency mesh')).
            common (parinfo ps' ! fst ab) (parinfo ps' ! snd ab) < length (block_pairs mesh')) \<and>
         mset (concat (block_pairs mesh')) = mset (edges (adjacency mesh'))"
proof -
  note bp = block_pairs_filter [OF assms]
  have len: "length (block_pairs mesh') = 2 * num_threads cfg + 2" unfolding bp(1) by simp
  have nth: "block_pairs mesh' ! k =
              filter (\<lambda>ab. common (parinfo ps' ! fst ab) (parinfo ps' ! snd ab) = k)
                     (edges (adjacency mesh'))" if "k < length (block_pairs mesh')" for k
    using that unfolding len unfolding bp(1) by (simp del: upt_Suc)
  have keys: "\<forall>ab \<in> set (edges (adjacency mesh')).
            common (parinfo ps' ! fst ab) (parinfo ps' ! snd ab) < length (block_pairs mesh')"
    unfolding len by (rule bp(2))
  have "mset (concat (block_pairs mesh')) =
        mset (filter (\<lambda>ab. common (parinfo ps' ! fst ab) (parinfo ps' ! snd ab) < 2 * num_threads cfg + 2)
                     (edges (adjacency mesh')))"
    unfolding bp(1) by (rule mset_filter_keys)
  also have "\<dots> = mset (edges (adjacency mesh'))"
    using bp(2) by (simp add: filter_id_conv [THEN iffD2])
  finally show ?thesis using len nth keys by blast
qed

theorem block_edges_partition_edges_witness:
  "update scene_config empty_mesh scene_particles scene_radius
     = (None, scene_mesh,
        scene_particles\<lparr>parinfo := [[0, 2, 2], [0, 2, 2], [0, 2, 2], [0, 2, 2]]\<rparr>) \<and>
   edges (adjacency scene_mesh) = [(0, 1), (0, 3), (1, 2)] \<and>
   block_pairs scene_mesh = [[], [], [], [(0, 1), (0, 3), (1, 2)]] \<and>
   mset (concat (block_pairs scene_mesh)) = mset (edges (adjacency scene_mesh))"
proof -
  have u: "update scene_config empty_mesh scene_particles scene_radius
     = (None, scene_mesh,
        scene_particles\<lparr>parinfo := [[0, 2, 2], [0, 2, 2], [0, 2, 2], [0, 2, 2]]\<rparr>)"
    unfolding scene_mesh_eq scene_update by (simp add: scene_particles_def)
  have e: "edges (adjacency scene_mesh) = [(0, 1), (0, 3), (1, 2)]"
    unfolding scene_mesh_eq by code_simp
  from block_edges_partition_edges [OF u]
  have "mset (concat (block_pairs scene_mesh)) = mset (edges (adjacency scene_mesh))" by blast
  then show ?thesis using u e scene_block_pairs by blast
qed

text \<open>
  C1, as the code has it. When \<open>update\<close> has completed, two pairs of bucket \<open>k\<close> that share a
  particle lie in one block of level \<open>k\<close>: the \<open>PartVec\<close>s of their four ends agree on the
  first \<open>k\<close> levels. The pairs of a bucket need not be disjoint.
\<close>

theorem bucket_pairs_share_block:
  assumes "update cfg mesh ps radius_func = (None, mesh', ps')"
    and "k < length (block_pairs mesh')"
    and "ab \<in> set (block_pairs mesh' ! k)" and "cd \<in> set (block_pairs mesh' ! k)"
    and "{fst ab, snd ab} \<inter> {fst cd, snd cd} \<noteq> {}"
  shows "take k (parinfo ps' ! snd ab) = take k (parinfo ps' ! fst ab) \<and>
         take k (parinfo ps' ! fst cd) = take k (parinfo ps' ! fst ab) \<and>
         take k (parinfo ps' ! snd cd) = take k (parinfo ps' ! fst ab)"
proof -
  have k: "k < 2 * num_threads cfg + 2"
    using assms(2) unfolding block_pairs_filter(1) [OF assms(1)] by simp
  have b: "block_pairs mesh' ! k =
        filter (\<lambda>ab. common (parinfo ps' ! fst ab) (parinfo ps' ! snd ab) = k) (edges (adjacency mesh'))"
    using k unfolding block_pairs_filter(1) [OF assms(1)] by (simp del: upt_Suc)
  have "common (parinfo ps' ! fst ab) (parinfo ps' ! snd ab) = k"
    and "common (parinfo ps' ! fst cd) (parinfo ps' ! snd cd) = k"
    using assms(3,4) unfolding b by simp_all
  then have 1: "take k (parinfo ps' ! fst ab) = take k (parinfo ps' ! snd ab)"
    and 2: "take k (parinfo ps' ! fst cd) = take k (parinfo ps' ! snd cd)"
    by (simp_all add: common_take)
  from assms(5) have "fst ab = fst cd \<or> fst ab = snd cd \<or> snd ab = fst cd \<or> snd ab = snd cd"
    by auto
  then show ?thesis using 1 2 by (elim disjE) simp_all
qed

theorem bucket_pairs_share_block_witness:
  "block_pairs scene_mesh ! 3 = [(0, 1), (0, 3), (1, 2)] \<and>
   take 3 (parinfo (snd (snd (update scene_config empty_mesh scene_particles scene_radius))) ! 1)
     = take 3 (parinfo (snd (snd (update scene_config empty_mesh scene_particles scene_radius))) ! 0) \<and>
   take 3 (parinfo (snd (snd (update scene_config empty_mesh scene_particles scene_radius))) ! 3)
     = take 3 (parinfo (snd (snd (update scene_config empty_mesh scene_particles scene_radius))) ! 0)"
proof -
  obtain ps' where u: "update scene_config empty_mesh scene_particles scene_radius
     = (None, scene_mesh, ps')"
    unfolding scene_mesh_eq scene_update by simp
  have b: "block_pairs scene_mesh ! 3 = [(0, 1), (0, 3), (1, 2)]"
    by (simp add: scene_block_pairs)
  have k: "3 < length (block_pairs scene_mesh)" by (simp add: scene_block_pairs)
  have m1: "(0, 1) \<in> set (block_pairs scene_mesh ! 3)" and m2: "(0, 3) \<in> set (block_pairs scene_mesh ! 3)"
    by (simp_all add: b)
  have sh: "{fst (0::nat, 1::nat), snd (0::nat, 1::nat)} \<inter> {fst (0::nat, 3::nat), snd (0::nat, 3::nat)} \<noteq> {}"
    by simp
  from bucket_pairs_share_block [OF u k m1 m2 sh]
  have "take 3 (parinfo ps' ! 1) = take 3 (parinfo ps' ! 0) \<and>
        take 3 (parinfo ps' ! 3) = take 3 (parinfo ps' ! 0)" by simp
  then show ?thesis using b by (simp add: u)
qed

text \<open>
  C1 as stated fails: in the scene the pairs \<open>(0, 1)\<close> and \<open>(0, 3)\<close> are in one bucket, share
  particle 0 and are not the same pair.
\<close>

theorem bucket_pairs_not_disjoint_counterexample:
  "(0, 1) \<in> set (block_pairs scene_mesh ! 3) \<and>
   (0, 3) \<in> set (block_pairs scene_mesh ! 3) \<and>
   {0 :: nat, 1} \<inter> {0, 3} \<noteq> {} \<and>
   (0 :: nat, 1 :: nat) \<noteq> (0, 3)"
  by (simp add: scene_block_pairs)

subsection \<open>When the update completes\<close>

lemma common_le: "common p q \<le> length p"
  by (induction p q rule: common.induct) simp_all

lemma write_step_inv:
  assumes "\<forall>p \<in> set parts. length p = M"
  shows "\<forall>p \<in> set (parts[i := (parts ! i)[level := v]]). length p = M"
proof (cases "i < length parts")
  case True
  then have "length ((parts ! i)[level := v]) = M" using assms by simp
  then show ?thesis using assms set_update_subset_insert [of parts i "(parts ! i)[level := v]"]
    by auto
next
  case False
  then have "parts[i := (parts ! i)[level := v]] = parts" by (simp add: list_update_beyond)
  then show ?thesis using assms by simp
qed

lemma write_level_inv:
  assumes "\<forall>p \<in> set parts. length p = M"
  shows "length (write_level level perm vals parts) = length parts \<and>
         (\<forall>p \<in> set (write_level level perm vals parts). length p = M)"
proof -
  have "length (foldl (\<lambda>ps (i, v). ps[i := (ps ! i)[level := v]]) parts ivs) = length parts \<and>
        (\<forall>p \<in> set (foldl (\<lambda>ps (i, v). ps[i := (ps ! i)[level := v]]) parts ivs). length p = M)"
    for ivs
    using assms
  proof (induction ivs arbitrary: parts)
    case Nil
    then show ?case by simp
  next
    case (Cons iv ivs)
    obtain i v where iv: "iv = (i, v)" by (cases iv) auto
    have "\<forall>p \<in> set (parts[i := (parts ! i)[level := v]]). length p = M"
      by (rule write_step_inv [OF Cons.prems])
    from Cons.IH [OF this] show ?case by (simp add: iv)
  qed
  then show ?thesis by (simp add: write_level_def)
qed

lemma level_step_inv:
  assumes "\<forall>p \<in> set (fst st). length p = M"
  shows "length (fst (level_step cfg adj positions L st level)) = length (fst st) \<and>
         (\<forall>p \<in> set (fst (level_step cfg adj positions L st level)). length p = M)"
proof -
  obtain parts interface where st: "st = (parts, interface)" by (cases st) auto
  have p: "\<forall>p \<in> set parts. length p = M" using assms st by simp
  show ?thesis
    using write_level_inv [OF p]
    by (simp add: level_step_def st Let_def)
qed

lemma levels_inv:
  assumes "\<forall>p \<in> set (fst st). length p = M"
  shows "length (fst (foldl (level_step cfg adj positions L) st levels)) = length (fst st) \<and>
         (\<forall>p \<in> set (fst (foldl (level_step cfg adj positions L) st levels)). length p = M)"
  using assms
proof (induction levels arbitrary: st)
  case Nil
  then show ?case by simp
next
  case (Cons l ls)
  from level_step_inv [OF Cons.prems, of cfg adj positions L l]
  have 1: "length (fst (level_step cfg adj positions L st l)) = length (fst st)"
    and 2: "\<forall>p \<in> set (fst (level_step cfg adj positions L st l)). length p = M"
    by blast+
  from Cons.IH [OF 2] 1 show ?case by simp
qed

lemma edges_from_buckets:
  assumes "ab \<in> set (edges (from_buckets xss))"
  shows "fst ab < length xss \<and> snd ab \<in> set (xss ! fst ab)"
proof -
  from assms obtain a b where ab: "ab = (a, b)" "a < length xss" "b \<in> set (bucket (from_buckets xss) a)"
    by (auto simp: edges_def num_buckets_from_buckets)
  then show ?thesis by (simp add: bucket_from_buckets)
qed

lemma update_completes:
  assumes c: "search_contract (search_func cfg)"
    and rd: "\<forall>a < size_of ps. \<exists>rad. radius_func a = Inr rad \<and> 0 < rad"
    and lv: "2 < MaxNumLevels cfg" "MaxNumLevels cfg \<le> 2 * num_threads cfg + 1"
    and pi: "2 * num_threads cfg + 1 \<le> PartIndex_max cfg"
  shows "\<exists>mesh' ps'. update cfg mesh ps radius_func = (None, mesh', ps')"
proof -
  let ?adj = "from_buckets
             (map (\<lambda>a. sort (search_func cfg (r_pos ps) (r_pos ps ! a) (projr (radius_func a))))
                  (all_of ps))"
  obtain m1 where s: "search_impl cfg mesh ps radius_func = (None, m1)" and adj: "adjacency m1 = ?adj"
    using search_impl_ok [OF rd, of cfg mesh] by simp
  let ?M = "MaxNumLevels cfg"
  let ?np = "2 * num_threads cfg + 1"
  let ?initp = "replicate (size_of ps) (replicate ?M (?np - 1))"
  let ?parts = "fst (foldl (level_step cfg (adjacency m1) (r_pos ps) 2) (?initp, []) [0..<2])"
  have p0: "\<forall>p \<in> set (fst (?initp, [] :: nat list)). length p = ?M" by simp
  have l0: "length (fst (?initp, [] :: nat list)) = size_of ps" by simp
  note li = levels_inv [OF p0, of cfg "adjacency m1" "r_pos ps" 2 "[0..<2]"]
  have len: "length ?parts = size_of ps" using li l0 by (simp only:)
  have lens: "\<forall>p \<in> set ?parts. length p = ?M" using li by (rule conjunct2)
  have keys: "list_all (\<lambda>kv. fst kv < ?np + 1)
          (transform_edges (adjacency m1) (\<lambda>ab. (common (?parts ! fst ab) (?parts ! snd ab), ab)))"
    unfolding list_all_iff transform_edges_def
  proof
    fix kv assume "kv \<in> set (map (\<lambda>ab. (common (?parts ! fst ab) (?parts ! snd ab), ab)) (edges (adjacency m1)))"
    then obtain ab where ab: "ab \<in> set (edges (adjacency m1))"
      and kv: "kv = (common (?parts ! fst ab) (?parts ! snd ab), ab)" by auto
    have "fst ab < size_of ps" using edges_from_buckets [OF ab [unfolded adj]] by (simp add: all_of_def)
    then have "?parts ! fst ab \<in> set ?parts" using len by simp
    then have "length (?parts ! fst ab) = ?M" using lens by blast
    then have "common (?parts ! fst ab) (?parts ! snd ab) \<le> ?M"
      using common_le [of "?parts ! fst ab" "?parts ! snd ab"] by simp
    then show "fst kv < ?np + 1" using lv(2) by (simp add: kv)
  qed
  have "\<exists>mesh' ps'. partition_impl cfg m1 ps 2 = (None, mesh', ps')"
    using lv(1) pi keys
    by (simp add: partition_impl_def Let_def assign_pairs_par_wide_def)
  then show ?thesis by (simp add: update_def s)
qed
end
